theory Spec2Isabelle
  imports Main "HOL-Library.Word" "HOL-Library.Multiset"
begin

unbundle bit_operations_syntax

section \<open>The GPU memory handler (CUDA build) of a dense container\<close>

text \<open>
  \<^verbatim>\<open>gpu_memory_handler<T>\<close> keeps the device pointer \<^verbatim>\<open>gpu_memory_\<close> and the two flags
  \<^verbatim>\<open>cpu_up_to_date\<close> (initially true) and \<^verbatim>\<open>gpu_up_to_date\<close> (initially false).
  The device buffer is modelled by its contents, \<open>None\<close> for the null pointer. The host
  buffer that the container passes as \<^verbatim>\<open>memory_start()\<close> and the counter that
  \<^verbatim>\<open>inc_counter("gpu:gpu_to_cpu")\<close> bumps are part of the state that is threaded through.
  A failing \<^verbatim>\<open>cpp_assert\<close> and a failing \<^verbatim>\<open>cuda_check\<close> are error values.
\<close>

datatype error = AssertionFailed string | CudaError

record 'a gpu_memory_handler =
  gpu_memory :: "'a list option"
  cpu_up_to_date :: bool
  gpu_up_to_date :: bool

record 'a dense_dyn_base =
  memory :: "'a list"
  gpu :: "'a gpu_memory_handler"
  gpu_to_cpu_counter :: nat

definition is_gpu_allocated :: "'a gpu_memory_handler \<Rightarrow> bool" where
  "is_gpu_allocated h = (gpu_memory h \<noteq> None)"

definition invalidate_cpu :: "'a gpu_memory_handler \<Rightarrow> 'a gpu_memory_handler" where
  "invalidate_cpu h = h\<lparr>cpu_up_to_date := False\<rparr>"

definition invalidate_gpu :: "'a gpu_memory_handler \<Rightarrow> 'a gpu_memory_handler" where
  "invalidate_gpu h = h\<lparr>gpu_up_to_date := False\<rparr>"

text \<open>
  \<^verbatim>\<open>cudaMemcpy(cpu_memory, gpu_memory_, etl_size * sizeof(T), cudaMemcpyDeviceToHost)\<close>
  overwrites the first \<open>n\<close> host elements with the first \<open>n\<close> device elements; a copy
  that leaves either buffer is the runtime's error.
\<close>

definition cudaMemcpyDeviceToHost :: "'a list \<Rightarrow> 'a list \<Rightarrow> nat \<Rightarrow> error + 'a list" where
  "cudaMemcpyDeviceToHost cpu_memory dev n =
     (if n \<le> length dev \<and> n \<le> length cpu_memory
      then Inr (take n dev @ drop n cpu_memory)
      else Inl CudaError)"

definition gpu_to_cpu :: "'a dense_dyn_base \<Rightarrow> nat \<Rightarrow> error + 'a dense_dyn_base" where
  "gpu_to_cpu c etl_size =
     (case gpu_memory (gpu c) of
        None \<Rightarrow> Inl (AssertionFailed ''Cannot copy from unallocated GPU memory()'')
      | Some dev \<Rightarrow>
          if \<not> gpu_up_to_date (gpu c) then Inl (AssertionFailed ''Cannot copy from invalid memory'')
          else if cpu_up_to_date (gpu c) then Inl (AssertionFailed ''Copy done without reason'')
          else (case cudaMemcpyDeviceToHost (memory c) dev etl_size of
                  Inl e \<Rightarrow> Inl e
                | Inr m \<Rightarrow> Inr (c\<lparr>memory := m,
                                  gpu := (gpu c)\<lparr>cpu_up_to_date := True\<rparr>,
                                  gpu_to_cpu_counter := Suc (gpu_to_cpu_counter c)\<rparr>)))"

text \<open>
  \<^verbatim>\<open>dense_dyn_base::ensure_cpu_up_to_date()\<close> calls the handler with
  \<^verbatim>\<open>memory_start()\<close> and \<^verbatim>\<open>_size\<close>; the handler copies only when the host flag is down.
\<close>

definition handler_ensure_cpu_up_to_date :: "'a dense_dyn_base \<Rightarrow> nat \<Rightarrow> error + 'a dense_dyn_base" where
  "handler_ensure_cpu_up_to_date c etl_size =
     (if \<not> cpu_up_to_date (gpu c) then gpu_to_cpu c etl_size else Inr c)"

definition ensure_cpu_up_to_date :: "'a dense_dyn_base \<Rightarrow> error + 'a dense_dyn_base" where
  "ensure_cpu_up_to_date c = handler_ensure_cpu_up_to_date c (length (memory c))"

section \<open>Aliasing of dense containers\<close>

text \<open>
  Only addresses matter for the aliasing test: a container is seen as the byte address of
  \<^verbatim>\<open>_memory\<close>, its \<^verbatim>\<open>_size\<close> and \<^verbatim>\<open>sizeof(T)\<close>.
\<close>

record dense_layout =
  memory_addr :: nat
  layout_size :: nat
  sizeof_value :: nat

definition memory_start :: "dense_layout \<Rightarrow> nat" where
  "memory_start a = memory_addr a"

definition memory_end :: "dense_layout \<Rightarrow> nat" where
  "memory_end a = memory_addr a + layout_size a * sizeof_value a"

text \<open>
  Modelled from the spec: \<^verbatim>\<open>memory_alias\<close> is called by \<^verbatim>\<open>dense_dyn_base::alias\<close> but
  defined in a file that is not part of the sources at hand. The specification calls the
  aliasing test an overlap test between two contiguous-memory collaborators: some address
  lies in both ranges.
\<close>

definition memory_alias :: "nat \<Rightarrow> nat \<Rightarrow> nat \<Rightarrow> nat \<Rightarrow> bool" where
  "memory_alias a_begin a_end b_begin b_end =
     (\<exists>p \<in> set [a_begin..<a_end]. b_begin \<le> p \<and> p < b_end)"

definition dense_alias :: "dense_layout \<Rightarrow> dense_layout \<Rightarrow> bool" where
  "dense_alias a rhs = memory_alias (memory_start a) (memory_end a) (memory_start rhs) (memory_end rhs)"

section \<open>Partition of the index range by the parallel strategies\<close>

text \<open>
  The parallel variants of \<^verbatim>\<open>assign_evaluate_impl\<close> compute \<^verbatim>\<open>batch = n / threads\<close>,
  hand the chunks \<^verbatim>\<open>[t * batch, (t+1) * batch)\<close> for \<^verbatim>\<open>t < threads - 1\<close> to the pool and run
  \<^verbatim>\<open>[(threads - 1) * batch, n)\<close> themselves. No product exceeds \<open>n\<close>, so \<^verbatim>\<open>size_t\<close>
  arithmetic does not wrap and \<open>nat\<close> models it.
\<close>

definition pool_chunks :: "nat \<Rightarrow> nat \<Rightarrow> (nat \<times> nat) list" where
  "pool_chunks n threads =
     (let batch = n div threads
      in map (\<lambda>t. (t * batch, (t + 1) * batch)) [0..<threads - 1])"

definition caller_chunk :: "nat \<Rightarrow> nat \<Rightarrow> nat \<times> nat" where
  "caller_chunk n threads = (let batch = n div threads in ((threads - 1) * batch, n))"

definition chunks :: "nat \<Rightarrow> nat \<Rightarrow> (nat \<times> nat) list" where
  "chunks n threads = pool_chunks n threads @ [caller_chunk n threads]"

definition chunk_set :: "nat \<times> nat \<Rightarrow> nat set" where
  "chunk_set c = {fst c..<snd c}"

section \<open>Expressions, destination memory and the record of stores\<close>

text \<open>
  The destination \<^verbatim>\<open>lhs\<close> / \<^verbatim>\<open>lhs_m\<close> / \<^verbatim>\<open>result\<close> is the list \<open>mem\<close> of its elements.
  Two ghost fields record what the code does besides changing values: \<open>writes\<close> lists
  every element store with the loop phase that issued it, \<open>pool_tasks\<close> lists the chunks
  handed to \<^verbatim>\<open>pool.do_task\<close>.

  A right-hand side \<^verbatim>\<open>rhs\<close> may read the destination's storage (aliasing), so its flat read
  \<^verbatim>\<open>read_flat(i)\<close> / \<^verbatim>\<open>operator[](i)\<close> is a function of the destination's current contents
  and the index. The element type is abstract; the lane operations \<^verbatim>\<open>default_vec::add\<close>,
  \<^verbatim>\<open>sub\<close>, \<^verbatim>\<open>mul\<close>, \<^verbatim>\<open>div\<close> act on each lane as the scalar operator does.
  Stores outside the destination are undefined behaviour in the source; every caller
  passes \<^verbatim>\<open>last <= size(result)\<close>, and the theorems assume it.
\<close>

datatype phase = Scalar | Peel | AlignedMain | UnalignedMain | Remainder

record 'a dest =
  mem :: "'a list"
  writes :: "(phase \<times> nat) list"
  pool_tasks :: "(nat \<times> nat) list"

type_synonym 'a expr = "'a list \<Rightarrow> nat \<Rightarrow> 'a"

datatype compound = Assign | AssignAdd | AssignSub | AssignMul | AssignDiv

fun apply_compound :: "compound \<Rightarrow> 'a::{plus,minus,times,divide} \<Rightarrow> 'a \<Rightarrow> 'a" where
  "apply_compound Assign l r = r"
| "apply_compound AssignAdd l r = l + r"
| "apply_compound AssignSub l r = l - r"
| "apply_compound AssignMul l r = l * r"
| "apply_compound AssignDiv l r = l div r"

definition store_at :: "phase \<Rightarrow> nat \<Rightarrow> 'a \<Rightarrow> 'a dest \<Rightarrow> 'a dest" where
  "store_at ph i v s = s\<lparr>mem := (mem s)[i := v], writes := writes s @ [(ph, i)]\<rparr>"

text \<open>One scalar statement \<^verbatim>\<open>lhs[i] = rhs.read_flat(i)\<close>, \<^verbatim>\<open>lhs[i] += rhs[i]\<close>, ...\<close>

definition scalar_step ::
  "compound \<Rightarrow> phase \<Rightarrow> 'a::{plus,minus,times,divide} expr \<Rightarrow> nat \<Rightarrow> 'a dest \<Rightarrow> 'a dest" where
  "scalar_step f ph rhs i s = store_at ph i (apply_compound f (mem s ! i) (rhs (mem s) i)) s"

text \<open>
  One lane statement \<^verbatim>\<open>store(lhs_m + i, add(lhs.load(i), rhs.load(i)))\<close>: both loads read
  \<open>W\<close> consecutive elements before the store writes \<open>W\<close> consecutive elements.
\<close>

definition load :: "nat \<Rightarrow> 'a expr \<Rightarrow> 'a list \<Rightarrow> nat \<Rightarrow> 'a list" where
  "load W rhs m i = map (\<lambda>k. rhs m (i + k)) [0..<W]"

definition lhs_load :: "nat \<Rightarrow> 'a list \<Rightarrow> nat \<Rightarrow> 'a list" where
  "lhs_load W m i = map (\<lambda>k. m ! (i + k)) [0..<W]"

definition vec_store :: "phase \<Rightarrow> nat \<Rightarrow> nat \<Rightarrow> 'a list \<Rightarrow> 'a dest \<Rightarrow> 'a dest" where
  "vec_store ph W i v s = foldl (\<lambda>s k. store_at ph (i + k) (v ! k) s) s [0..<W]"

definition vector_step ::
  "compound \<Rightarrow> phase \<Rightarrow> nat \<Rightarrow> 'a::{plus,minus,times,divide} expr \<Rightarrow> nat \<Rightarrow> 'a dest \<Rightarrow> 'a dest" where
  "vector_step f ph W rhs i s =
     vec_store ph W i (map2 (apply_compound f) (lhs_load W (mem s) i) (load W rhs (mem s) i)) s"

section \<open>The scalar functors \<^verbatim>\<open>Assign\<close>, \<^verbatim>\<open>AssignAdd\<close>, \<^verbatim>\<open>AssignSub\<close>, \<^verbatim>\<open>AssignMul\<close>, \<^verbatim>\<open>AssignDiv\<close>\<close>

text \<open>\<^verbatim>\<open>for (i = start; i < last; ++i) lhs[i] op= rhs[i];\<close>\<close>

function scalar_loop ::
  "compound \<Rightarrow> phase \<Rightarrow> 'a::{plus,minus,times,divide} expr \<Rightarrow> nat \<Rightarrow> nat \<Rightarrow> 'a dest \<Rightarrow> 'a dest" where
  "scalar_loop f ph rhs last' i s =
     (if i < last' then scalar_loop f ph rhs last' (Suc i) (scalar_step f ph rhs i s) else s)"
  by pat_completeness auto
termination
  by (relation "measure (\<lambda>(f, ph, rhs, last', i, s). last' - i)") auto

declare scalar_loop.simps [simp del]

text \<open>\<^verbatim>\<open>for (i = _first; i < iend; i += 4)\<close> with four statements in the body.\<close>

function unrolled_loop ::
  "compound \<Rightarrow> 'a::{plus,minus,times,divide} expr \<Rightarrow> nat \<Rightarrow> nat \<Rightarrow> 'a dest \<Rightarrow> 'a dest" where
  "unrolled_loop f rhs iend i s =
     (if i < iend
      then unrolled_loop f rhs iend (i + 4)
             (scalar_step f Scalar rhs (i + 3)
               (scalar_step f Scalar rhs (i + 2)
                 (scalar_step f Scalar rhs (i + 1)
                   (scalar_step f Scalar rhs i s))))
      else s)"
  by pat_completeness auto
termination
  by (relation "measure (\<lambda>(f, rhs, iend, i, s). iend - i)") auto

declare unrolled_loop.simps [simp del]

text \<open>
  \<^verbatim>\<open>_size & std::size_t(-4)\<close> clears the two low bits: the largest multiple of four below
  or at \<^verbatim>\<open>_size\<close>. The loops count in \<open>nat\<close>; \<open>and_minus4_word\<close> is the operation on
  the 64-bit \<^verbatim>\<open>size_t\<close>, shown below to agree with it.
\<close>

definition and_minus4 :: "nat \<Rightarrow> nat" where
  "and_minus4 n = n - n mod 4"

definition and_minus4_word :: "64 word \<Rightarrow> 64 word" where
  "and_minus4_word w = w AND - 4"

text \<open>
  \<^verbatim>\<open>operator()\<close> of the scalar functors, with \<^verbatim>\<open>_size = last - first\<close>. The callers pass
  \<^verbatim>\<open>first <= last\<close>, where the unsigned difference is the one on \<open>nat\<close>.
\<close>

definition scalar_functor ::
  "bool \<Rightarrow> compound \<Rightarrow> 'a::{plus,minus,times,divide} expr \<Rightarrow> nat \<Rightarrow> nat \<Rightarrow> 'a dest \<Rightarrow> 'a dest" where
  "scalar_functor unroll_normal f rhs first last' s =
     (let size = last' - first;
          iend = (if unroll_normal then first + and_minus4 size else first);
          s1 = (if unroll_normal then unrolled_loop f rhs iend first s else s)
      in scalar_loop f Scalar rhs last' iend s1)"

section \<open>The vectorized functors on \<^verbatim>\<open>vectorized_base\<close>\<close>

text \<open>
  What the loop engine takes from its environment: the byte address of
  \<^verbatim>\<open>lhs.memory_start()\<close>, \<^verbatim>\<open>sizeof(value_t<V_Expr>)\<close>, and the constants \<^verbatim>\<open>IT::size\<close>
  (elements per lane) and \<^verbatim>\<open>IT::alignment\<close> (bytes) of \<^verbatim>\<open>intrinsic_traits\<close>, whose
  declaration is not among the sources and which are therefore parameters. Both sides of a
  vectorized evaluation have the same element type, so \<^verbatim>\<open>lhs_m + i\<close> is \<open>i\<close> times
  \<open>size_1\<close> bytes past \<open>lhs_m\<close>.
\<close>

record vectorized_base =
  lhs_m :: nat
  size_1 :: nat
  IT_size :: nat
  IT_alignment :: nat

text \<open>The loop of \<^verbatim>\<open>peel_loop\<close>; it returns the final \<^verbatim>\<open>i\<close>.\<close>

function peel_iter ::
  "compound \<Rightarrow> 'a::{plus,minus,times,divide} expr \<Rightarrow> nat \<Rightarrow> nat \<Rightarrow> nat \<Rightarrow> 'a dest \<Rightarrow> nat \<times> 'a dest" where
  "peel_iter f rhs first u_loads i s =
     (if i < u_loads then peel_iter f rhs first u_loads (Suc i) (scalar_step f Peel rhs (first + i) s)
      else (i, s))"
  by pat_completeness auto
termination
  by (relation "measure (\<lambda>(f, rhs, first, u_loads, i, s). u_loads - i)") auto

declare peel_iter.simps [simp del]

definition peel_loop ::
  "vectorized_base \<Rightarrow> compound \<Rightarrow> 'a::{plus,minus,times,divide} expr \<Rightarrow> nat \<Rightarrow> nat \<Rightarrow> 'a dest
     \<Rightarrow> nat \<times> 'a dest" where
  "peel_loop b f rhs first last' s =
     (let size = last' - first;
          u_bytes = (lhs_m b + first * size_1 b) mod IT_alignment b
      in if u_bytes \<ge> size_1 b \<and> u_bytes mod size_1 b = 0
         then (let u_loads = min (u_bytes div size_1 b) size in peel_iter f rhs first u_loads 0 s)
         else (0, s))"

text \<open>
  The two loops of \<^verbatim>\<open>aligned_main_loop\<close> and \<^verbatim>\<open>unaligned_main_loop\<close>, which differ only in
  \<^verbatim>\<open>store\<close> against \<^verbatim>\<open>storeu\<close>, here the phase \<open>ph\<close>. \<^verbatim>\<open>IT::size\<close> is a positive constant;
  the test \<open>0 < W\<close> only makes the recursion total at \<open>W = 0\<close>, which no instruction
  set has.
\<close>

function main_loop_4 ::
  "compound \<Rightarrow> phase \<Rightarrow> nat \<Rightarrow> 'a::{plus,minus,times,divide} expr \<Rightarrow> nat \<Rightarrow> nat \<Rightarrow> 'a dest
     \<Rightarrow> nat \<times> 'a dest" where
  "main_loop_4 f ph W rhs last' i s =
     (if 0 < W \<and> i + W * 4 - 1 < last'
      then main_loop_4 f ph W rhs last' (i + W * 4)
             (vector_step f ph W rhs (i + 3 * W)
               (vector_step f ph W rhs (i + 2 * W)
                 (vector_step f ph W rhs (i + 1 * W)
                   (vector_step f ph W rhs i s))))
      else (i, s))"
  by pat_completeness auto
termination
  by (relation "measure (\<lambda>(f, ph, W, rhs, last', i, s). last' - i)") auto

declare main_loop_4.simps [simp del]

function main_loop_1 ::
  "compound \<Rightarrow> phase \<Rightarrow> nat \<Rightarrow> 'a::{plus,minus,times,divide} expr \<Rightarrow> nat \<Rightarrow> nat \<Rightarrow> 'a dest
     \<Rightarrow> nat \<times> 'a dest" where
  "main_loop_1 f ph W rhs last' i s =
     (if 0 < W \<and> i + W - 1 < last'
      then main_loop_1 f ph W rhs last' (i + W) (vector_step f ph W rhs i s)
      else (i, s))"
  by pat_completeness auto
termination
  by (relation "measure (\<lambda>(f, ph, W, rhs, last', i, s). last' - i)") auto

declare main_loop_1.simps [simp del]

definition main_loop ::
  "phase \<Rightarrow> vectorized_base \<Rightarrow> bool \<Rightarrow> compound \<Rightarrow> 'a::{plus,minus,times,divide} expr \<Rightarrow> nat \<Rightarrow> nat
     \<Rightarrow> 'a dest \<Rightarrow> nat \<times> 'a dest" where
  "main_loop ph b unroll_vectorized f rhs last' first s =
     (if unroll_vectorized \<and> last' - first > IT_size b * 4
      then main_loop_4 f ph (IT_size b) rhs last' first s
      else main_loop_1 f ph (IT_size b) rhs last' first s)"

definition aligned_main_loop ::
  "vectorized_base \<Rightarrow> bool \<Rightarrow> compound \<Rightarrow> 'a::{plus,minus,times,divide} expr \<Rightarrow> nat \<Rightarrow> nat
     \<Rightarrow> 'a dest \<Rightarrow> nat \<times> 'a dest" where
  "aligned_main_loop = main_loop AlignedMain"

definition unaligned_main_loop ::
  "vectorized_base \<Rightarrow> bool \<Rightarrow> compound \<Rightarrow> 'a::{plus,minus,times,divide} expr \<Rightarrow> nat \<Rightarrow> nat
     \<Rightarrow> 'a dest \<Rightarrow> nat \<times> 'a dest" where
  "unaligned_main_loop = main_loop UnalignedMain"

definition remainder_loop ::
  "compound \<Rightarrow> 'a::{plus,minus,times,divide} expr \<Rightarrow> nat \<Rightarrow> nat \<Rightarrow> 'a dest \<Rightarrow> 'a dest" where
  "remainder_loop f rhs last' first s = scalar_loop f Remainder rhs last' first s"

text \<open>\<^verbatim>\<open>vectorized_base::operator()\<close>.\<close>

definition vectorized_functor ::
  "vectorized_base \<Rightarrow> bool \<Rightarrow> compound \<Rightarrow> 'a::{plus,minus,times,divide} expr \<Rightarrow> nat \<Rightarrow> nat
     \<Rightarrow> 'a dest \<Rightarrow> 'a dest" where
  "vectorized_functor b unroll_vectorized f rhs first last' s =
     (let size = last' - first;
          (peeled, s1) = peel_loop b f rhs first last' s
      in if size - peeled \<ge> IT_size b
         then (if (lhs_m b + (first + peeled) * size_1 b) mod IT_alignment b = 0
               then (let (first', s2) = aligned_main_loop b unroll_vectorized f rhs last' (first + peeled) s1
                     in remainder_loop f rhs last' first' s2)
               else (let (first', s2) = unaligned_main_loop b unroll_vectorized f rhs last' (first + peeled) s1
                     in remainder_loop f rhs last' first' s2))
         else remainder_loop f rhs last' (peeled + first) s1)"

section \<open>The evaluator\<close>

text \<open>
  The process-wide knobs read at evaluation time. \<^verbatim>\<open>evaluate_only(expr)\<close> materialises the
  temporaries inside the expression and leaves the destination alone; the right-hand side
  of the model stands for the expression after that step.
\<close>

record config =
  threads :: nat
  parallel_threshold :: nat
  unroll_normal_loops :: bool
  unroll_vectorized_loops :: bool

text \<open>\<^verbatim>\<open>for (i = 0; i < etl::size(result); ++i) result[i] op= expr[i];\<close>\<close>

definition standard_evaluate ::
  "compound \<Rightarrow> 'a::{plus,minus,times,divide} expr \<Rightarrow> 'a dest \<Rightarrow> 'a dest" where
  "standard_evaluate f rhs result = scalar_loop f Scalar rhs (length (mem result)) 0 result"

text \<open>
  \<^verbatim>\<open>std::copy(expr.memory_start(), expr.memory_end(), result.memory_start())\<close>: the memory
  of a dense expression holds its flat reads (\<^verbatim>\<open>read_flat(i)\<close> returns \<^verbatim>\<open>_memory[i]\<close>), and
  the expression has the size of the result.
\<close>

definition fast_assign_evaluate :: "'a expr \<Rightarrow> 'a dest \<Rightarrow> 'a dest" where
  "fast_assign_evaluate rhs result =
     (let n = length (mem result);
          expr_memory = map (rhs (mem result)) [0..<n]
      in result\<lparr>mem := expr_memory @ drop (length expr_memory) (mem result),
                writes := writes result @ map (Pair Scalar) [0..<n]\<rparr>)"

definition direct_evaluate ::
  "config \<Rightarrow> compound \<Rightarrow> 'a::{plus,minus,times,divide} expr \<Rightarrow> 'a dest \<Rightarrow> 'a dest" where
  "direct_evaluate cfg f rhs result =
     scalar_functor (unroll_normal_loops cfg) f rhs 0 (length (mem result)) result"

definition vectorized_evaluate ::
  "config \<Rightarrow> vectorized_base \<Rightarrow> compound \<Rightarrow> 'a::{plus,minus,times,divide} expr \<Rightarrow> 'a dest \<Rightarrow> 'a dest" where
  "vectorized_evaluate cfg b f rhs result =
     vectorized_functor b (unroll_vectorized_loops cfg) f rhs 0 (length (mem result)) result"

text \<open>
  \<^verbatim>\<open>pool.do_task(functor)\<close> records the chunk and runs the functor. The pool runs its tasks
  concurrently with the caller's chunk and \<^verbatim>\<open>pool.wait()\<close> joins them; the model runs the
  chunks one after the other in the order of submission. \<open>run_schedule\<close> runs a list of
  chunks in the order of the list; it serves to show that the order does not matter.
\<close>

definition do_task :: "nat \<times> nat \<Rightarrow> ('a dest \<Rightarrow> 'a dest) \<Rightarrow> 'a dest \<Rightarrow> 'a dest" where
  "do_task c body s = body (s\<lparr>pool_tasks := pool_tasks s @ [c]\<rparr>)"

definition parallel_evaluate ::
  "config \<Rightarrow> compound \<Rightarrow> 'a::{plus,minus,times,divide} expr \<Rightarrow> 'a dest \<Rightarrow> 'a dest" where
  "parallel_evaluate cfg f rhs result =
     (let n = length (mem result)
      in if n < parallel_threshold cfg \<or> threads cfg < 2
         then direct_evaluate cfg f rhs result
         else (let s1 = foldl (\<lambda>s c. do_task c (scalar_functor (unroll_normal_loops cfg) f rhs (fst c) (snd c)) s)
                          result (pool_chunks n (threads cfg));
                   c = caller_chunk n (threads cfg)
               in scalar_functor (unroll_normal_loops cfg) f rhs (fst c) (snd c) s1))"

definition parallel_vectorized_evaluate ::
  "config \<Rightarrow> vectorized_base \<Rightarrow> compound \<Rightarrow> 'a::{plus,minus,times,divide} expr \<Rightarrow> 'a dest \<Rightarrow> 'a dest" where
  "parallel_vectorized_evaluate cfg b f rhs result =
     (let size = length (mem result)
      in if size < parallel_threshold cfg \<or> threads cfg < 2
         then vectorized_evaluate cfg b f rhs result
         else (let s1 = foldl (\<lambda>s c. do_task c (vectorized_functor b (unroll_vectorized_loops cfg) f rhs (fst c) (snd c)) s)
                          result (pool_chunks size (threads cfg));
                   c = caller_chunk size (threads cfg)
               in vectorized_functor b (unroll_vectorized_loops cfg) f rhs (fst c) (snd c) s1))"

text \<open>
  The overloads of \<^verbatim>\<open>assign_evaluate_impl\<close> and of \<^verbatim>\<open>add_evaluate\<close>, \<^verbatim>\<open>sub_evaluate\<close>,
  \<^verbatim>\<open>mul_evaluate\<close>, \<^verbatim>\<open>div_evaluate\<close> are selected by the traits named below; the selectors
  themselves are not among the sources, so the selected overload is a parameter.
\<close>

datatype assign_strategy =
  standard_assign | fast_assign | direct_assign | parallel_assign | vectorized_assign
  | parallel_vectorized_assign

datatype compound_strategy =
  standard_compound | direct_compound | parallel_compound | vectorized_compound
  | parallel_vectorized_compound

fun assign_evaluate_impl ::
  "config \<Rightarrow> vectorized_base \<Rightarrow> assign_strategy \<Rightarrow> 'a::{plus,minus,times,divide} expr \<Rightarrow> 'a dest \<Rightarrow> 'a dest" where
  "assign_evaluate_impl cfg b standard_assign rhs result = standard_evaluate Assign rhs result"
| "assign_evaluate_impl cfg b fast_assign rhs result = fast_assign_evaluate rhs result"
| "assign_evaluate_impl cfg b direct_assign rhs result = direct_evaluate cfg Assign rhs result"
| "assign_evaluate_impl cfg b parallel_assign rhs result = parallel_evaluate cfg Assign rhs result"
| "assign_evaluate_impl cfg b vectorized_assign rhs result = vectorized_evaluate cfg b Assign rhs result"
| "assign_evaluate_impl cfg b parallel_vectorized_assign rhs result =
     parallel_vectorized_evaluate cfg b Assign rhs result"

fun compound_evaluate ::
  "config \<Rightarrow> vectorized_base \<Rightarrow> compound_strategy \<Rightarrow> compound \<Rightarrow> 'a::{plus,minus,times,divide} expr
     \<Rightarrow> 'a dest \<Rightarrow> 'a dest" where
  "compound_evaluate cfg b standard_compound f rhs result = standard_evaluate f rhs result"
| "compound_evaluate cfg b direct_compound f rhs result = direct_evaluate cfg f rhs result"
| "compound_evaluate cfg b parallel_compound f rhs result = parallel_evaluate cfg f rhs result"
| "compound_evaluate cfg b vectorized_compound f rhs result = vectorized_evaluate cfg b f rhs result"
| "compound_evaluate cfg b parallel_vectorized_compound f rhs result =
     parallel_vectorized_evaluate cfg b f rhs result"

definition add_evaluate ::
  "config \<Rightarrow> vectorized_base \<Rightarrow> compound_strategy \<Rightarrow> 'a::{plus,minus,times,divide} expr \<Rightarrow> 'a dest \<Rightarrow> 'a dest" where
  "add_evaluate cfg b st rhs result = compound_evaluate cfg b st AssignAdd rhs result"

text \<open>
  Modelled from the spec: \<^verbatim>\<open>force_temporary\<close> is not among the sources; the specification
  has it allocate a fresh temporary of the result's type. The temporary starts as a copy of
  the result in storage of its own, with no store recorded yet.
\<close>

definition force_temporary :: "'a dest \<Rightarrow> 'a dest" where
  "force_temporary result = \<lparr>mem = mem result, writes = [], pool_tasks = []\<rparr>"

text \<open>
  \<^verbatim>\<open>standard_evaluator::assign_evaluate\<close> for an expression that is not a temporary
  expression. \<open>linear\<close> is the trait \<^verbatim>\<open>decay_traits<E>::is_linear\<close>, \<open>aliases\<close> the outcome of
  \<^verbatim>\<open>result.alias(expr)\<close>. While the expression is evaluated into the temporary, the storage
  it reads is the untouched result; the second step reads the temporary. \<open>b_tmp\<close>,
  \<open>st_tmp\<close> and \<open>st_copy\<close> are the temporary's placement and the overloads selected for
  the two steps.
\<close>

definition assign_evaluate ::
  "config \<Rightarrow> vectorized_base \<Rightarrow> vectorized_base \<Rightarrow> assign_strategy \<Rightarrow> assign_strategy \<Rightarrow> assign_strategy
     \<Rightarrow> bool \<Rightarrow> bool \<Rightarrow> 'a::{plus,minus,times,divide} expr \<Rightarrow> 'a dest \<Rightarrow> 'a dest" where
  "assign_evaluate cfg b b_tmp st st_tmp st_copy linear aliases rhs result =
     (if \<not> linear \<and> aliases
      then (let tmp_result = force_temporary result;
                tmp_result' = assign_evaluate_impl cfg b_tmp st_tmp (\<lambda>m. rhs (mem result)) tmp_result
            in assign_evaluate_impl cfg b st_copy (\<lambda>m i. mem tmp_result' ! i) result)
      else assign_evaluate_impl cfg b st rhs result)"

text \<open>
  Modelled from the spec: the transposed view of a square matrix is not among the sources.
  Read at flat index \<open>k\<close> of an \<open>n \<times> n\<close> row-major matrix stored in \<open>m\<close>, it yields
  the element at the mirrored position.
\<close>

definition transpose_flat :: "nat \<Rightarrow> 'a expr" where
  "transpose_flat n m k = m ! ((k mod n) * n + k div n)"

section \<open>Notions used by the statements\<close>

text \<open>
  The stores issued between two states; the contents a destination \<open>m0\<close> has once the
  indices in \<open>[a, b)\<close> have been combined with the right-hand side; and the right-hand sides
  whose element \<open>i\<close> depends on the destination's storage through element \<open>i\<close> at most
  (every expression that does not read the destination is of this kind). \<open>elementwise\<close>
  asks this around the contents \<open>m0\<close> the destination has when the evaluation starts,
  \<open>pointwise\<close> around all contents of size \<open>n\<close>; \<open>upd_on\<close> is \<open>upd\<close> for a set of
  indices, and \<open>chunk_body\<close> says of a functor that, run on a chunk, it combines exactly
  the indices of the chunk.
\<close>

definition issued :: "'a dest \<Rightarrow> 'a dest \<Rightarrow> (phase \<times> nat) list" where
  "issued s s' = drop (length (writes s)) (writes s')"

definition upd ::
  "compound \<Rightarrow> 'a::{plus,minus,times,divide} expr \<Rightarrow> 'a list \<Rightarrow> nat \<Rightarrow> nat \<Rightarrow> 'a list" where
  "upd f rhs m0 a b =
     map (\<lambda>j. if a \<le> j \<and> j < b then apply_compound f (m0 ! j) (rhs m0 j) else m0 ! j) [0..<length m0]"

definition elementwise :: "'a expr \<Rightarrow> 'a list \<Rightarrow> bool" where
  "elementwise rhs m0 =
     (\<forall>m i. length m = length m0 \<longrightarrow> i < length m0 \<longrightarrow> m ! i = m0 ! i \<longrightarrow> rhs m i = rhs m0 i)"

definition peeled_count :: "vectorized_base \<Rightarrow> nat \<Rightarrow> nat \<Rightarrow> nat" where
  "peeled_count b first last' =
     (let u_bytes = (lhs_m b + first * size_1 b) mod IT_alignment b
      in if u_bytes \<ge> size_1 b \<and> u_bytes mod size_1 b = 0
         then min (u_bytes div size_1 b) (last' - first) else 0)"

text \<open>
  The body of the unrolled main loops, four lane statements in a row, and the kind of store the
  main phase of a chunk uses: the test \<^verbatim>\<open>vectorized_base::operator()\<close> makes on the address
  that follows the peeled elements.
\<close>

definition four_lanes ::
  "compound \<Rightarrow> phase \<Rightarrow> nat \<Rightarrow> 'a::{plus,minus,times,divide} expr \<Rightarrow> nat \<Rightarrow> 'a dest \<Rightarrow> 'a dest" where
  "four_lanes f ph W rhs i s =
     vector_step f ph W rhs (i + 3 * W)
       (vector_step f ph W rhs (i + 2 * W)
         (vector_step f ph W rhs (i + 1 * W)
           (vector_step f ph W rhs i s)))"

definition main_phase :: "vectorized_base \<Rightarrow> nat \<Rightarrow> nat \<Rightarrow> phase" where
  "main_phase b first last' =
     (if (lhs_m b + (first + peeled_count b first last') * size_1 b) mod IT_alignment b = 0
      then AlignedMain else UnalignedMain)"

text \<open>
  Concrete inputs for the examples: a right-hand side that does not read the destination, a
  16-byte aligned and a misaligned destination of 4-byte elements with four lanes, a
  zero-filled destination, two settings of the knobs, the 2 x 2 matrix \<open>1 2 / 3 4\<close>, and
  a right-hand side that reads the destination one element to the left, with the destination
  \<open>1, ..., 8\<close> it is evaluated into.
\<close>

definition example_rhs :: "int expr" where
  "example_rhs m i = int i + 10"

definition sse_float :: vectorized_base where
  "sse_float = \<lparr>lhs_m = 0, size_1 = 4, IT_size = 4, IT_alignment = 16\<rparr>"

definition zeros :: "nat \<Rightarrow> int dest" where
  "zeros n = \<lparr>mem = replicate n 0, writes = [], pool_tasks = []\<rparr>"

definition misaligned_float :: vectorized_base where
  "misaligned_float = \<lparr>lhs_m = 2, size_1 = 4, IT_size = 4, IT_alignment = 16\<rparr>"

definition serial_config :: config where
  "serial_config = \<lparr>threads = 1, parallel_threshold = 100, unroll_normal_loops = False,
     unroll_vectorized_loops = False\<rparr>"

definition two_threads_config :: config where
  "two_threads_config = \<lparr>threads = 2, parallel_threshold = 4, unroll_normal_loops = True,
     unroll_vectorized_loops = True\<rparr>"

definition square_2x2 :: "int dest" where
  "square_2x2 = \<lparr>mem = [1, 2, 3, 4], writes = [], pool_tasks = []\<rparr>"

definition shifted :: "int expr" where
  "shifted m i = m ! (i - 1)"

definition one_to_eight :: "int dest" where
  "one_to_eight = \<lparr>mem = [1, 2, 3, 4, 5, 6, 7, 8], writes = [], pool_tasks = []\<rparr>"

definition pointwise :: "'a expr \<Rightarrow> nat \<Rightarrow> bool" where
  "pointwise rhs n =
     (\<forall>m m' i. length m = n \<longrightarrow> length m' = n \<longrightarrow> i < n \<longrightarrow> m ! i = m' ! i \<longrightarrow> rhs m i = rhs m' i)"

definition upd_on ::
  "compound \<Rightarrow> 'a::{plus,minus,times,divide} expr \<Rightarrow> 'a list \<Rightarrow> nat set \<Rightarrow> 'a list" where
  "upd_on f rhs m0 S =
     map (\<lambda>j. if j \<in> S then apply_compound f (m0 ! j) (rhs m0 j) else m0 ! j) [0..<length m0]"

definition run_schedule :: "(nat \<Rightarrow> nat \<Rightarrow> 'a dest \<Rightarrow> 'a dest) \<Rightarrow> (nat \<times> nat) list \<Rightarrow> 'a dest \<Rightarrow> 'a dest" where
  "run_schedule body cs s = foldl (\<lambda>s c. body (fst c) (snd c) s) s cs"

definition chunk_body ::
  "compound \<Rightarrow> 'a::{plus,minus,times,divide} expr \<Rightarrow> (nat \<Rightarrow> nat \<Rightarrow> 'a dest \<Rightarrow> 'a dest) \<Rightarrow> bool" where
  "chunk_body f rhs body =
     (\<forall>m0 first last' s. elementwise rhs m0 \<longrightarrow> mem s = m0 \<longrightarrow> first \<le> last' \<longrightarrow> last' \<le> length m0 \<longrightarrow>
        mem (body first last' s) = upd f rhs m0 first last')"

section \<open>Aliasing and the partition into chunks\<close>

lemma memory_alias_iff:
  "memory_alias a_begin a_end b_begin b_end = ({a_begin..<a_end} \<inter> {b_begin..<b_end} \<noteq> {})"
proof
  assume "memory_alias a_begin a_end b_begin b_end"
  then show "{a_begin..<a_end} \<inter> {b_begin..<b_end} \<noteq> {}"
    by (auto simp: memory_alias_def)
next
  assume "{a_begin..<a_end} \<inter> {b_begin..<b_end} \<noteq> {}"
  then obtain p where "p \<in> {a_begin..<a_end}" "p \<in> {b_begin..<b_end}" by blast
  then show "memory_alias a_begin a_end b_begin b_end"
    unfolding memory_alias_def by (intro bexI [of _ p]) simp_all
qed

lemma memory_alias_sym:
  "memory_alias a_begin a_end b_begin b_end = memory_alias b_begin b_end a_begin a_end"
  by (simp add: memory_alias_iff Int_commute)

text \<open>
  C9. For two dense containers, \<^verbatim>\<open>a.alias(b)\<close> holds exactly when the half-open address
  ranges \<^verbatim>\<open>[a.memory_start(), a.memory_end())\<close> and \<^verbatim>\<open>[b.memory_start(), b.memory_end())\<close>
  have an address in common, and the test is symmetric.
\<close>

theorem alias_overlap_symmetric:
  "dense_alias a b = ({memory_start a..<memory_end a} \<inter> {memory_start b..<memory_end b} \<noteq> {}) \<and>
   dense_alias a b = dense_alias b a"
  unfolding dense_alias_def
  using memory_alias_iff memory_alias_sym by blast

lemma pool_chunks_union:
  "(\<Union>t \<in> {0..<k}. {t * b..<(t + 1) * b}) = {0..<k * (b::nat)}"
proof (induction k)
  case 0
  then show ?case by simp
next
  case (Suc k)
  have "(\<Union>t \<in> {0..<Suc k}. {t * b..<(t + 1) * b}) = (\<Union>t \<in> {0..<k}. {t * b..<(t + 1) * b}) \<union> {k * b..<(k + 1) * b}"
    by (simp add: atLeast0_lessThan_Suc Un_commute)
  also have "\<dots> = {0..<k * b} \<union> {k * b..<(k + 1) * b}"
    by (simp only: Suc.IH)
  also have "\<dots> = {0..<Suc k * b}"
    by (auto simp: )
  finally show ?case .
qed

lemma caller_chunk_start_le: "0 < thr \<Longrightarrow> (thr - 1) * (n div thr) \<le> (n::nat)"
proof -
  assume "0 < thr"
  have "(thr - 1) * (n div thr) \<le> thr * (n div thr)"
    by (simp add: mult_le_mono1)
  also have "\<dots> \<le> n" by simp
  finally show ?thesis .
qed

lemma chunks_length: "length (chunks n thr) = Suc (thr - 1)"
  by (simp add: chunks_def pool_chunks_def Let_def)

lemma chunks_nth_pool:
  "t < thr - 1 \<Longrightarrow> chunks n thr ! t = (t * (n div thr), (t + 1) * (n div thr))"
  by (simp add: chunks_def pool_chunks_def Let_def nth_append)

lemma chunks_nth_caller:
  "chunks n thr ! (thr - 1) = ((thr - 1) * (n div thr), n)"
  by (simp add: chunks_def pool_chunks_def caller_chunk_def Let_def nth_append)

lemma chunks_union:
  assumes "0 < thr"
  shows "(\<Union>c \<in> set (chunks n thr). chunk_set c) = {0..<n}"
proof -
  let ?b = "n div thr"
  have "(\<Union>c \<in> set (pool_chunks n thr). chunk_set c) = (\<Union>t \<in> {0..<thr - 1}. {t * ?b..<(t + 1) * ?b})"
    by (simp add: pool_chunks_def chunk_set_def Let_def)
  then have "(\<Union>c \<in> set (pool_chunks n thr). chunk_set c) = {0..<(thr - 1) * ?b}"
    by (simp only: pool_chunks_union)
  moreover have "chunk_set (caller_chunk n thr) = {(thr - 1) * ?b..<n}"
    by (simp add: caller_chunk_def chunk_set_def Let_def)
  ultimately have "(\<Union>c \<in> set (chunks n thr). chunk_set c) = {0..<(thr - 1) * ?b} \<union> {(thr - 1) * ?b..<n}"
    by (simp add: chunks_def Un_commute)
  also have "\<dots> = {0..<n}"
    using caller_chunk_start_le [OF assms, of n] by auto
  finally show ?thesis .
qed

lemma chunks_disjoint:
  assumes "i < j" "j < Suc (thr - 1)"
  shows "chunk_set (chunks n thr ! i) \<inter> chunk_set (chunks n thr ! j) = {}"
proof -
  let ?b = "n div thr"
  from assms have i: "i < thr - 1" by simp
  have le: "(i + 1) * ?b \<le> j * ?b"
    using assms by (intro mult_le_mono1) simp
  have fi: "chunk_set (chunks n thr ! i) = {i * ?b..<(i + 1) * ?b}"
    using i by (simp add: chunks_nth_pool chunk_set_def)
  have "fst (chunks n thr ! j) = j * ?b"
  proof (cases "j < thr - 1")
    case True
    then show ?thesis by (simp add: chunks_nth_pool)
  next
    case False
    with assms have "j = thr - 1" by simp
    then show ?thesis using chunks_nth_caller [of n thr] by simp
  qed
  then have "chunk_set (chunks n thr ! j) \<subseteq> {j * ?b..}"
    by (auto simp: chunk_set_def)
  with fi le show ?thesis by fastforce
qed


section \<open>Coherence of the host copy\<close>

lemma ensure_cpu_fresh:
  "cpu_up_to_date (gpu c) \<Longrightarrow> ensure_cpu_up_to_date c = Inr c"
  by (simp add: ensure_cpu_up_to_date_def handler_ensure_cpu_up_to_date_def)

lemma ensure_cpu_stale:
  assumes "\<not> cpu_up_to_date (gpu c)" "gpu_up_to_date (gpu c)"
    and "gpu_memory (gpu c) = Some dev" "length dev = length (memory c)"
  shows "ensure_cpu_up_to_date c =
           Inr (c\<lparr>memory := dev, gpu := (gpu c)\<lparr>cpu_up_to_date := True\<rparr>,
                  gpu_to_cpu_counter := Suc (gpu_to_cpu_counter c)\<rparr>)"
  using assms
  by (simp add: ensure_cpu_up_to_date_def handler_ensure_cpu_up_to_date_def gpu_to_cpu_def
      cudaMemcpyDeviceToHost_def)

lemma ensure_cpu_result_fresh:
  "ensure_cpu_up_to_date c = Inr c' \<Longrightarrow> cpu_up_to_date (gpu c')"
  by (auto simp: ensure_cpu_up_to_date_def handler_ensure_cpu_up_to_date_def gpu_to_cpu_def
      split: if_splits option.splits sum.splits)

text \<open>
  C8. When the host copy is fresh, \<^verbatim>\<open>ensure_cpu_up_to_date\<close> returns the container as it
  is: nothing is copied, no flag changes, the transfer counter stays. When the host copy is
  stale and the device copy is the allocated, fresh source of truth, the host buffer
  receives the device contents, the transfer is counted once and both flags are up
  (state Both). Hence a second call right after a successful one copies nothing and
  changes nothing.
\<close>

theorem ensure_cpu_up_to_date_idempotent:
  "(cpu_up_to_date (gpu c) \<longrightarrow> ensure_cpu_up_to_date c = Inr c) \<and>
   (\<not> cpu_up_to_date (gpu c) \<and> gpu_up_to_date (gpu c) \<and> gpu_memory (gpu c) = Some dev \<and>
      length dev = length (memory c) \<longrightarrow>
      (\<exists>c'. ensure_cpu_up_to_date c = Inr c' \<and> memory c' = dev \<and>
            cpu_up_to_date (gpu c') \<and> gpu_up_to_date (gpu c') \<and>
            gpu_memory (gpu c') = Some dev \<and>
            gpu_to_cpu_counter c' = Suc (gpu_to_cpu_counter c))) \<and>
   (\<forall>c'. ensure_cpu_up_to_date c = Inr c' \<longrightarrow> ensure_cpu_up_to_date c' = Inr c')"
proof (intro conjI impI allI)
  assume "cpu_up_to_date (gpu c)"
  then show "ensure_cpu_up_to_date c = Inr c" by (rule ensure_cpu_fresh)
next
  assume h: "\<not> cpu_up_to_date (gpu c) \<and> gpu_up_to_date (gpu c) \<and> gpu_memory (gpu c) = Some dev \<and>
      length dev = length (memory c)"
  then have "ensure_cpu_up_to_date c =
           Inr (c\<lparr>memory := dev, gpu := (gpu c)\<lparr>cpu_up_to_date := True\<rparr>,
                  gpu_to_cpu_counter := Suc (gpu_to_cpu_counter c)\<rparr>)"
    by (intro ensure_cpu_stale) simp_all
  with h show "\<exists>c'. ensure_cpu_up_to_date c = Inr c' \<and> memory c' = dev \<and>
            cpu_up_to_date (gpu c') \<and> gpu_up_to_date (gpu c') \<and>
            gpu_memory (gpu c') = Some dev \<and>
            gpu_to_cpu_counter c' = Suc (gpu_to_cpu_counter c)"
    by simp
next
  fix c' assume "ensure_cpu_up_to_date c = Inr c'"
  then have "cpu_up_to_date (gpu c')" by (rule ensure_cpu_result_fresh)
  then show "ensure_cpu_up_to_date c' = Inr c'" by (rule ensure_cpu_fresh)
qed

text \<open>
  A container whose data was last written on the device: the first call transfers
  \<open>[5, 6]\<close> to the host, the second one returns the very same state.
\<close>

theorem ensure_cpu_up_to_date_idempotent_witness:
  "(let c = \<lparr>memory = [0, 0 :: int],
              gpu = \<lparr>gpu_memory = Some [5, 6], cpu_up_to_date = False, gpu_up_to_date = True\<rparr>,
              gpu_to_cpu_counter = 0\<rparr>;
        c' = \<lparr>memory = [5, 6 :: int],
               gpu = \<lparr>gpu_memory = Some [5, 6], cpu_up_to_date = True, gpu_up_to_date = True\<rparr>,
               gpu_to_cpu_counter = 1\<rparr>
    in \<not> cpu_up_to_date (gpu c) \<and> gpu_up_to_date (gpu c) \<and> gpu_memory (gpu c) = Some [5, 6] \<and>
       length [5, 6 :: int] = length (memory c) \<and>
       ensure_cpu_up_to_date c = Inr c' \<and> ensure_cpu_up_to_date c' = Inr c')"
proof -
  let ?c = "\<lparr>memory = [0, 0 :: int],
              gpu = \<lparr>gpu_memory = Some [5, 6], cpu_up_to_date = False, gpu_up_to_date = True\<rparr>,
              gpu_to_cpu_counter = 0\<rparr>"
  have first: "ensure_cpu_up_to_date ?c = Inr \<lparr>memory = [5, 6 :: int],
               gpu = \<lparr>gpu_memory = Some [5, 6], cpu_up_to_date = True, gpu_up_to_date = True\<rparr>,
               gpu_to_cpu_counter = 1\<rparr>"
    by (simp add: ensure_cpu_up_to_date_def handler_ensure_cpu_up_to_date_def gpu_to_cpu_def
        cudaMemcpyDeviceToHost_def)
  from ensure_cpu_up_to_date_idempotent [of ?c "[5, 6]"] first show ?thesis
    by (simp add: Let_def)
qed

section \<open>Stores and contents of the loops\<close>

subsection \<open>Single stores\<close>

lemma store_at_simps [simp]:
  "mem (store_at ph i v s) = (mem s)[i := v]"
  "writes (store_at ph i v s) = writes s @ [(ph, i)]"
  "pool_tasks (store_at ph i v s) = pool_tasks s"
  by (simp_all add: store_at_def)

lemma scalar_step_simps [simp]:
  "writes (scalar_step f ph rhs i s) = writes s @ [(ph, i)]"
  "pool_tasks (scalar_step f ph rhs i s) = pool_tasks s"
  "length (mem (scalar_step f ph rhs i s)) = length (mem s)"
  by (simp_all add: scalar_step_def)

lemma vec_store_writes:
  "writes (vec_store ph W i v s) = writes s @ map (Pair ph) [i..<i + W]"
proof -
  have "writes (foldl (\<lambda>s k. store_at ph (i + k) (v ! k) s) s [0..<K]) = writes s @ map (Pair ph) [i..<i + K]" for K
    by (induction K) simp_all
  then show ?thesis by (simp add: vec_store_def)
qed

lemma vec_store_pool: "pool_tasks (vec_store ph W i v s) = pool_tasks s"
proof -
  have "pool_tasks (foldl (\<lambda>s k. store_at ph (i + k) (v ! k) s) s [0..<K]) = pool_tasks s" for K
    by (induction K) simp_all
  then show ?thesis by (simp add: vec_store_def)
qed

lemma vec_store_mem:
  "mem (vec_store ph W i v s) = foldl (\<lambda>m k. m[i + k := v ! k]) (mem s) [0..<W]"
proof -
  have "mem (foldl (\<lambda>s k. store_at ph (i + k) (v ! k) s) s [0..<K]) = foldl (\<lambda>m k. m[i + k := v ! k]) (mem s) [0..<K]" for K
    by (induction K) simp_all
  then show ?thesis by (simp add: vec_store_def)
qed

lemma vector_step_simps [simp]:
  "writes (vector_step f ph W rhs i s) = writes s @ map (Pair ph) [i..<i + W]"
  "pool_tasks (vector_step f ph W rhs i s) = pool_tasks s"
  by (simp_all add: vector_step_def vec_store_writes vec_store_pool)

subsection \<open>The stores of the loops\<close>

lemma scalar_loop_writes:
  "writes (scalar_loop f ph rhs last' i s) = writes s @ map (Pair ph) [i..<last']"
proof (induction f ph rhs last' i s rule: scalar_loop.induct)
  case (1 f ph rhs last' i s)
  show ?case
  proof (cases "i < last'")
    case True
    then show ?thesis
      using "1.IH" by (subst scalar_loop.simps) (simp add: upt_conv_Cons)
  next
    case False
    then show ?thesis by (subst scalar_loop.simps) simp
  qed
qed

lemma scalar_loop_pool: "pool_tasks (scalar_loop f ph rhs last' i s) = pool_tasks s"
proof (induction f ph rhs last' i s rule: scalar_loop.induct)
  case (1 f ph rhs last' i s)
  then show ?case by (subst scalar_loop.simps) simp
qed


lemma upt_split: "i \<le> j \<Longrightarrow> j \<le> k \<Longrightarrow> [i..<k] = [i..<j] @ [j..<k]"
  by (metis le_Suc_ex upt_add_eq_append)


lemma unrolled_loop_pool: "pool_tasks (unrolled_loop f rhs iend i s) = pool_tasks s"
proof (induction f rhs iend i s rule: unrolled_loop.induct)
  case (1 f rhs iend i s)
  then show ?case by (subst unrolled_loop.simps) simp
qed

subsection \<open>The mask of the unrolled scalar loop on \<^verbatim>\<open>size_t\<close>\<close>

lemma minus4_not_mask: "(- 4 :: 64 word) = NOT (mask 2)"
  by (simp add: mask_eq_exp_minus_1)

lemma and_minus4_shift: "((w :: 64 word) AND - 4) = push_bit 2 (drop_bit 2 w)"
proof -
  have ssn: "Suc (Suc (n - 2)) = n" if "\<not> n < 2" for n :: nat
    using that by simp
  show ?thesis
    unfolding minus4_not_mask
    by (rule bit_word_eqI) (auto simp: bit_simps ssn not_less [symmetric])
qed

lemma unat_shift_pair: "unat (push_bit 2 (drop_bit 2 w)) = unat w - unat w mod 4" for w :: "64 word"
proof -
  have "unat (drop_bit 2 w) = unat w div 4"
    by (simp only: unat_drop_bit_eq) (simp add: drop_bit_eq_div)
  moreover have "unat w div 4 * 4 < 2 ^ 64"
  proof -
    have "unat w div 4 * 4 \<le> unat w" by simp
    also have "unat w < 2 ^ 64" using unsigned_less [of w, where 'a = nat] by simp
    finally show ?thesis .
  qed
  moreover have "unat (drop_bit 2 w * 4) = (unat (drop_bit 2 w) * unat (4 :: 64 word)) mod 2 ^ 64"
    by (simp add: unat_word_ariths)
  ultimately have "unat (drop_bit 2 w * 4) = unat w div 4 * 4"
    by simp
  then have "unat (push_bit 2 (drop_bit 2 w)) = unat w div 4 * 4"
    by (simp add: push_bit_eq_mult)
  then show ?thesis by (simp add: minus_mod_eq_div_mult)
qed

lemma and_minus4_word_unat: "unat (and_minus4_word w) = and_minus4 (unat w)"
  by (simp add: and_minus4_word_def and_minus4_def and_minus4_shift unat_shift_pair)

subsection \<open>The scalar functors\<close>

lemma and_minus4_le: "and_minus4 n \<le> n" and and_minus4_dvd: "4 dvd and_minus4 n"
  by (simp_all add: and_minus4_def dvd_minus_mod)


lemma scalar_functor_pool: "pool_tasks (scalar_functor u f rhs first last' s) = pool_tasks s"
  by (simp add: scalar_functor_def Let_def scalar_loop_pool unrolled_loop_pool)


subsection \<open>Contents\<close>

lemma upd_length [simp]: "length (upd f rhs m0 a b) = length m0"
  by (simp add: upd_def)

lemma upd_nth:
  "j < length m0 \<Longrightarrow>
   upd f rhs m0 a b ! j = (if a \<le> j \<and> j < b then apply_compound f (m0 ! j) (rhs m0 j) else m0 ! j)"
  by (simp add: upd_def)

lemma upd_empty: "b \<le> a \<Longrightarrow> upd f rhs m0 a b = m0"
  by (rule nth_equalityI) (auto simp: upd_nth)

lemma upd_step:
  assumes "a \<le> i" "i < length m0"
  shows "(upd f rhs m0 a i)[i := apply_compound f (m0 ! i) (rhs m0 i)] = upd f rhs m0 a (Suc i)"
  using assms by (intro nth_equalityI) (auto simp: upd_nth nth_list_update)

lemma elementwise_upd:
  assumes "elementwise rhs m0" "a \<le> i" "i \<le> j" "j < length m0"
  shows "rhs (upd f rhs m0 a i) j = rhs m0 j" and "upd f rhs m0 a i ! j = m0 ! j"
proof -
  show n: "upd f rhs m0 a i ! j = m0 ! j" using assms by (simp add: upd_nth)
  from assms(1) have "length (upd f rhs m0 a i) = length m0 \<longrightarrow> j < length m0 \<longrightarrow>
      upd f rhs m0 a i ! j = m0 ! j \<longrightarrow> rhs (upd f rhs m0 a i) j = rhs m0 j"
    unfolding elementwise_def by blast
  with n assms(4) show "rhs (upd f rhs m0 a i) j = rhs m0 j"
    by simp
qed

lemma scalar_step_mem:
  assumes "elementwise rhs m0" "mem s = upd f rhs m0 a i" "a \<le> i" "i < length m0"
  shows "mem (scalar_step f ph rhs i s) = upd f rhs m0 a (Suc i)"
  using assms elementwise_upd [of rhs m0 a i i f]
  by (simp add: scalar_step_def upd_step)

lemma scalar_loop_mem:
  "elementwise rhs m0 \<Longrightarrow> mem s = upd f rhs m0 a i \<Longrightarrow> a \<le> i \<Longrightarrow> i \<le> last' \<Longrightarrow> last' \<le> length m0 \<Longrightarrow>
   mem (scalar_loop f ph rhs last' i s) = upd f rhs m0 a last'"
proof (induction f ph rhs last' i s rule: scalar_loop.induct)
  case (1 f ph rhs last' i s)
  show ?case
  proof (cases "i < last'")
    case True
    with "1.prems" have "mem (scalar_step f ph rhs i s) = upd f rhs m0 a (Suc i)"
      by (intro scalar_step_mem) simp_all
    with "1.IH" [OF True] "1.prems" True show ?thesis
      by (subst scalar_loop.simps) simp
  next
    case False
    with "1.prems" show ?thesis by (subst scalar_loop.simps) simp
  qed
qed

lemma unrolled_loop_mem:
  "elementwise rhs m0 \<Longrightarrow> mem s = upd f rhs m0 a i \<Longrightarrow> a \<le> i \<Longrightarrow> i \<le> iend \<Longrightarrow> 4 dvd (iend - i) \<Longrightarrow>
   iend \<le> length m0 \<Longrightarrow> mem (unrolled_loop f rhs iend i s) = upd f rhs m0 a iend"
proof (induction f rhs iend i s rule: unrolled_loop.induct)
  case (1 f rhs iend i s)
  show ?case
  proof (cases "i < iend")
    case True
    with "1.prems" have le: "i + 4 \<le> iend" by (elim dvdE) arith
    from "1.prems" have dvd: "4 dvd (iend - (i + 4))" by presburger
    let ?s1 = "scalar_step f Scalar rhs i s"
    let ?s2 = "scalar_step f Scalar rhs (i + 1) ?s1"
    let ?s3 = "scalar_step f Scalar rhs (i + 2) ?s2"
    let ?s4 = "scalar_step f Scalar rhs (i + 3) ?s3"
    have m1: "mem ?s1 = upd f rhs m0 a (i + 1)"
      using "1.prems" le scalar_step_mem [of rhs m0 s f a i] by simp
    have m2: "mem ?s2 = upd f rhs m0 a (i + 2)"
      using "1.prems" le scalar_step_mem [OF "1.prems"(1) m1, of Scalar] by (simp add: eval_nat_numeral)
    have m3: "mem ?s3 = upd f rhs m0 a (i + 3)"
      using "1.prems" le scalar_step_mem [OF "1.prems"(1) m2, of Scalar] by (simp add: eval_nat_numeral)
    have m4: "mem ?s4 = upd f rhs m0 a (i + 4)"
      using "1.prems" le scalar_step_mem [OF "1.prems"(1) m3, of Scalar] by (simp add: eval_nat_numeral)
    have "mem (unrolled_loop f rhs iend (i + 4) ?s4) = upd f rhs m0 a iend"
      using "1.prems" le dvd m4 by (intro "1.IH" [OF True]) simp_all
    with True show ?thesis by (subst unrolled_loop.simps) simp
  next
    case False
    with "1.prems" show ?thesis by (subst unrolled_loop.simps) simp
  qed
qed

lemma scalar_functor_mem:
  assumes "elementwise rhs m0" "mem s = upd f rhs m0 a first" "a \<le> first" "first \<le> last'"
    "last' \<le> length m0"
  shows "mem (scalar_functor u f rhs first last' s) = upd f rhs m0 a last'"
proof (cases u)
  case True
  let ?iend = "first + and_minus4 (last' - first)"
  have le: "first \<le> ?iend" "?iend \<le> last'" using assms and_minus4_le [of "last' - first"] by simp_all
  have "4 dvd (?iend - first)" by (simp add: and_minus4_dvd)
  then have "mem (unrolled_loop f rhs ?iend first s) = upd f rhs m0 a ?iend"
    using le assms by (intro unrolled_loop_mem) simp_all
  then have "mem (scalar_loop f Scalar rhs last' ?iend (unrolled_loop f rhs ?iend first s)) = upd f rhs m0 a last'"
    using le assms by (intro scalar_loop_mem) simp_all
  then show ?thesis
    using True by (simp add: scalar_functor_def Let_def)
next
  case False
  then show ?thesis using assms by (simp add: scalar_functor_def Let_def scalar_loop_mem)
qed


subsection \<open>Lane stores\<close>

lemma vector_step_length [simp]: "length (mem (vector_step f ph W rhs i s)) = length (mem s)"
proof -
  have "length (foldl (\<lambda>m k. m[i + k := v ! k]) m [0..<K]) = length m" for K v and m :: "'a list"
    by (induction K) simp_all
  then show ?thesis by (simp add: vector_step_def vec_store_mem)
qed

lemma vector_step_mem:
  assumes ew: "elementwise rhs m0" and m: "mem s = upd f rhs m0 a i" and "a \<le> i" "i + W \<le> length m0"
  shows "mem (vector_step f ph W rhs i s) = upd f rhs m0 a (i + W)"
proof -
  let ?v = "map2 (apply_compound f) (lhs_load W (mem s) i) (load W rhs (mem s) i)"
  have v: "?v ! k = apply_compound f (m0 ! (i + k)) (rhs m0 (i + k))" if "k < W" for k
  proof -
    from that assms have "i + k < length m0" by simp
    with ew \<open>a \<le> i\<close> have "rhs (upd f rhs m0 a i) (i + k) = rhs m0 (i + k)" "upd f rhs m0 a i ! (i + k) = m0 ! (i + k)"
      by (simp_all add: elementwise_upd)
    with that m show ?thesis by (simp add: lhs_load_def load_def)
  qed
  have "K \<le> W \<Longrightarrow> foldl (\<lambda>m k. m[i + k := ?v ! k]) (upd f rhs m0 a i) [0..<K] = upd f rhs m0 a (i + K)" for K
  proof (induction K)
    case 0
    then show ?case by simp
  next
    case (Suc K)
    then have "foldl (\<lambda>m k. m[i + k := ?v ! k]) (upd f rhs m0 a i) [0..<Suc K]
        = (upd f rhs m0 a (i + K))[i + K := apply_compound f (m0 ! (i + K)) (rhs m0 (i + K))]"
      using v [of K] by simp
    also have "\<dots> = upd f rhs m0 a (Suc (i + K))"
      using Suc.prems assms by (intro upd_step) simp_all
    finally show ?case by simp
  qed
  from this [of W] m show ?thesis by (simp add: vector_step_def vec_store_mem)
qed

subsection \<open>The peel loop\<close>

lemma peel_iter_fst: "i \<le> u \<Longrightarrow> fst (peel_iter f rhs first u i s) = u"
proof (induction f rhs first u i s rule: peel_iter.induct)
  case (1 f rhs first u i s)
  then show ?case by (subst peel_iter.simps) simp
qed

lemma peel_iter_writes:
  "i \<le> u \<Longrightarrow> writes (snd (peel_iter f rhs first u i s)) = writes s @ map (Pair Peel) [first + i..<first + u]"
proof (induction f rhs first u i s rule: peel_iter.induct)
  case (1 f rhs first u i s)
  show ?case
  proof (cases "i < u")
    case True
    then show ?thesis using "1.IH" by (subst peel_iter.simps) (simp add: upt_conv_Cons)
  next
    case False
    with "1.prems" show ?thesis by (subst peel_iter.simps) simp
  qed
qed

lemma peel_iter_pool: "pool_tasks (snd (peel_iter f rhs first u i s)) = pool_tasks s"
proof (induction f rhs first u i s rule: peel_iter.induct)
  case (1 f rhs first u i s)
  then show ?case by (subst peel_iter.simps) simp
qed

lemma peel_iter_mem:
  "elementwise rhs m0 \<Longrightarrow> mem s = upd f rhs m0 a (first + i) \<Longrightarrow> a \<le> first + i \<Longrightarrow> i \<le> u \<Longrightarrow>
   first + u \<le> length m0 \<Longrightarrow> mem (snd (peel_iter f rhs first u i s)) = upd f rhs m0 a (first + u)"
proof (induction f rhs first u i s rule: peel_iter.induct)
  case (1 f rhs first u i s)
  show ?case
  proof (cases "i < u")
    case True
    with "1.prems" have "mem (scalar_step f Peel rhs (first + i) s) = upd f rhs m0 a (Suc (first + i))"
      by (intro scalar_step_mem) simp_all
    with "1.IH" [OF True] "1.prems" True show ?thesis
      by (subst peel_iter.simps) simp
  next
    case False
    with "1.prems" show ?thesis by (subst peel_iter.simps) simp
  qed
qed

lemma peeled_count_le: "peeled_count b first last' \<le> last' - first"
  by (simp add: peeled_count_def Let_def)

lemma peel_loop_fst: "fst (peel_loop b f rhs first last' s) = peeled_count b first last'"
  by (simp add: peel_loop_def peeled_count_def Let_def peel_iter_fst)

lemma peel_loop_writes:
  "writes (snd (peel_loop b f rhs first last' s)) =
     writes s @ map (Pair Peel) [first..<first + peeled_count b first last']"
  using peel_iter_writes [of 0 _ f rhs first s]
  by (simp add: peel_loop_def peeled_count_def Let_def)

lemma peel_loop_pool: "pool_tasks (snd (peel_loop b f rhs first last' s)) = pool_tasks s"
  by (simp add: peel_loop_def Let_def peel_iter_pool)

lemma peel_loop_mem:
  assumes "elementwise rhs m0" "mem s = upd f rhs m0 a first" "a \<le> first" "first \<le> last'"
    "last' \<le> length m0"
  shows "mem (snd (peel_loop b f rhs first last' s)) = upd f rhs m0 a (first + peeled_count b first last')"
proof -
  let ?u = "(lhs_m b + first * size_1 b) mod IT_alignment b"
  show ?thesis
  proof (cases "?u \<ge> size_1 b \<and> ?u mod size_1 b = 0")
    case True
    let ?n = "min (?u div size_1 b) (last' - first)"
    have "mem (snd (peel_iter f rhs first ?n 0 s)) = upd f rhs m0 a (first + ?n)"
      using assms by (intro peel_iter_mem) simp_all
    with True show ?thesis by (simp add: peel_loop_def peeled_count_def Let_def)
  next
    case False
    with assms show ?thesis by (auto simp: peel_loop_def peeled_count_def Let_def)
  qed
qed


subsection \<open>The main loops\<close>

lemma lane_offsets:
  "i + 1 * W = i + W" "i + W + W = i + 2 * W" "i + 2 * W + W = i + 3 * W" "i + 3 * W + W = i + W * 4"
  for i W :: nat
  by simp_all

lemma upt_lane: "i \<le> j \<Longrightarrow> [i..<j] @ [j..<j + W] = [i..<j + W]"
  by (metis upt_add_eq_append)

lemma vector_step_writes_from:
  assumes "writes s = w @ map (Pair ph) [i..<j]" "i \<le> j"
  shows "writes (vector_step f ph W rhs j s) = w @ map (Pair ph) [i..<j + W]"
  using assms upt_lane [of i j W] by (simp flip: map_append)

lemma four_lanes_writes:
  "writes (four_lanes f ph W rhs i s) = writes s @ map (Pair ph) [i..<i + W * 4]"
proof -
  let ?s1 = "vector_step f ph W rhs i s"
  let ?s2 = "vector_step f ph W rhs (i + W) ?s1"
  let ?s3 = "vector_step f ph W rhs (i + 2 * W) ?s2"
  let ?s4 = "vector_step f ph W rhs (i + 3 * W) ?s3"
  have w0: "writes s = writes s @ map (Pair ph) [i..<i]" by simp
  have w1: "writes ?s1 = writes s @ map (Pair ph) [i..<i + W]"
    by (rule vector_step_writes_from [OF w0]) simp
  have "writes ?s2 = writes s @ map (Pair ph) [i..<i + W + W]"
    by (rule vector_step_writes_from [OF w1]) simp
  then have w2: "writes ?s2 = writes s @ map (Pair ph) [i..<i + 2 * W]"
    unfolding lane_offsets .
  have "writes ?s3 = writes s @ map (Pair ph) [i..<i + 2 * W + W]"
    by (rule vector_step_writes_from [OF w2]) simp
  then have w3: "writes ?s3 = writes s @ map (Pair ph) [i..<i + 3 * W]"
    unfolding lane_offsets .
  have "writes ?s4 = writes s @ map (Pair ph) [i..<i + 3 * W + W]"
    by (rule vector_step_writes_from [OF w3]) simp
  then show ?thesis
    unfolding four_lanes_def lane_offsets .
qed

lemma four_lanes_pool: "pool_tasks (four_lanes f ph W rhs i s) = pool_tasks s"
  by (simp add: four_lanes_def)

lemma four_lanes_mem:
  assumes ew: "elementwise rhs m0" and m: "mem s = upd f rhs m0 a i" and a: "a \<le> i" and le: "i + W * 4 \<le> length m0"
  shows "mem (four_lanes f ph W rhs i s) = upd f rhs m0 a (i + W * 4)"
proof -
  let ?s1 = "vector_step f ph W rhs i s"
  let ?s2 = "vector_step f ph W rhs (i + W) ?s1"
  let ?s3 = "vector_step f ph W rhs (i + 2 * W) ?s2"
  let ?s4 = "vector_step f ph W rhs (i + 3 * W) ?s3"
  have m1: "mem ?s1 = upd f rhs m0 a (i + W)"
    using a le by (intro vector_step_mem [OF ew m]) simp_all
  have "mem ?s2 = upd f rhs m0 a (i + W + W)"
    using a le by (intro vector_step_mem [OF ew m1]) simp_all
  then have m2: "mem ?s2 = upd f rhs m0 a (i + 2 * W)"
    unfolding lane_offsets .
  have "mem ?s3 = upd f rhs m0 a (i + 2 * W + W)"
    using a le by (intro vector_step_mem [OF ew m2]) simp_all
  then have m3: "mem ?s3 = upd f rhs m0 a (i + 3 * W)"
    unfolding lane_offsets .
  have "mem ?s4 = upd f rhs m0 a (i + 3 * W + W)"
    using a le by (intro vector_step_mem [OF ew m3]) simp_all
  then show ?thesis
    unfolding four_lanes_def lane_offsets .
qed

lemma main_loop_4_unfold:
  "main_loop_4 f ph W rhs last' i s =
     (if 0 < W \<and> i + W * 4 - 1 < last'
      then main_loop_4 f ph W rhs last' (i + W * 4) (four_lanes f ph W rhs i s)
      else (i, s))"
  by (subst main_loop_4.simps) (simp add: four_lanes_def)

lemma main_loop_4_bounds:
  "i \<le> fst (main_loop_4 f ph W rhs last' i s) \<and>
   (i \<le> last' \<longrightarrow> fst (main_loop_4 f ph W rhs last' i s) \<le> last')"
proof (induction f ph W rhs last' i s rule: main_loop_4.induct)
  case (1 f ph W rhs last' i s)
  show ?case
  proof (cases "0 < W \<and> i + W * 4 - 1 < last'")
    case True
    then have "i + W * 4 \<le> last'" by arith
    with "1.IH" [OF True] True show ?thesis
      by (subst (1 2) main_loop_4_unfold) (simp add: four_lanes_def)
  next
    case False
    then show ?thesis by (subst (1 2) main_loop_4_unfold) auto
  qed
qed

lemma main_loop_4_progress:
  "0 < W \<Longrightarrow> i + W * 4 \<le> last' \<Longrightarrow> i + W * 4 \<le> fst (main_loop_4 f ph W rhs last' i s)"
proof -
  assume "0 < W" "i + W * 4 \<le> last'"
  then have g: "0 < W \<and> i + W * 4 - 1 < last'" by arith
  have "main_loop_4 f ph W rhs last' i s = main_loop_4 f ph W rhs last' (i + W * 4) (four_lanes f ph W rhs i s)"
    using g by (subst main_loop_4_unfold) simp
  then show ?thesis
    using main_loop_4_bounds [of "i + W * 4" f ph W rhs last' "four_lanes f ph W rhs i s"] by simp
qed

lemma main_loop_4_writes:
  "writes (snd (main_loop_4 f ph W rhs last' i s)) =
     writes s @ map (Pair ph) [i..<fst (main_loop_4 f ph W rhs last' i s)]"
proof (induction f ph W rhs last' i s rule: main_loop_4.induct)
  case (1 f ph W rhs last' i s)
  show ?case
  proof (cases "0 < W \<and> i + W * 4 - 1 < last'")
    case True
    let ?r = "main_loop_4 f ph W rhs last' (i + W * 4) (four_lanes f ph W rhs i s)"
    have r: "main_loop_4 f ph W rhs last' i s = ?r"
      using True by (subst main_loop_4_unfold) simp
    have "i + W * 4 \<le> fst ?r" using main_loop_4_bounds by blast
    then have "[i..<fst ?r] = [i..<i + W * 4] @ [i + W * 4..<fst ?r]"
      by (intro upt_split) simp_all
    moreover have "writes (snd ?r) = writes (four_lanes f ph W rhs i s) @ map (Pair ph) [i + W * 4..<fst ?r]"
      using "1.IH" [OF True] by (simp add: four_lanes_def)
    ultimately show ?thesis by (simp add: r four_lanes_writes)
  next
    case False
    then show ?thesis by (subst (1 2) main_loop_4_unfold) auto
  qed
qed

lemma main_loop_4_pool: "pool_tasks (snd (main_loop_4 f ph W rhs last' i s)) = pool_tasks s"
proof (induction f ph W rhs last' i s rule: main_loop_4.induct)
  case (1 f ph W rhs last' i s)
  show ?case
  proof (cases "0 < W \<and> i + W * 4 - 1 < last'")
    case True
    with "1.IH" [OF True] show ?thesis
      by (subst main_loop_4_unfold) (simp add: four_lanes_def)
  next
    case False
    then show ?thesis by (subst main_loop_4_unfold) auto
  qed
qed

lemma main_loop_4_mem:
  "elementwise rhs m0 \<Longrightarrow> mem s = upd f rhs m0 a i \<Longrightarrow> a \<le> i \<Longrightarrow> last' \<le> length m0 \<Longrightarrow>
   mem (snd (main_loop_4 f ph W rhs last' i s)) = upd f rhs m0 a (fst (main_loop_4 f ph W rhs last' i s))"
proof (induction f ph W rhs last' i s rule: main_loop_4.induct)
  case (1 f ph W rhs last' i s)
  show ?case
  proof (cases "0 < W \<and> i + W * 4 - 1 < last'")
    case True
    let ?s' = "four_lanes f ph W rhs i s"
    from True have le: "i + W * 4 \<le> last'" by arith
    with "1.prems" have "mem ?s' = upd f rhs m0 a (i + W * 4)"
      by (intro four_lanes_mem) simp_all
    with "1.prems" have "mem (snd (main_loop_4 f ph W rhs last' (i + W * 4) ?s')) =
        upd f rhs m0 a (fst (main_loop_4 f ph W rhs last' (i + W * 4) ?s'))"
      unfolding four_lanes_def by (intro "1.IH" [OF True]) simp_all
    with True show ?thesis by (subst (1 2) main_loop_4_unfold) simp
  next
    case False
    with "1.prems" show ?thesis by (subst (1 2) main_loop_4_unfold) auto
  qed
qed

lemma main_loop_1_bounds:
  "i \<le> fst (main_loop_1 f ph W rhs last' i s) \<and>
   (i \<le> last' \<longrightarrow> fst (main_loop_1 f ph W rhs last' i s) \<le> last')"
proof (induction f ph W rhs last' i s rule: main_loop_1.induct)
  case (1 f ph W rhs last' i s)
  show ?case
  proof (cases "0 < W \<and> i + W - 1 < last'")
    case True
    then have "i + W \<le> last'" by arith
    with "1.IH" [OF True] True show ?thesis
      by (subst (1 2) main_loop_1.simps) simp
  next
    case False
    then show ?thesis by (subst (1 2) main_loop_1.simps) auto
  qed
qed

lemma main_loop_1_progress:
  "0 < W \<Longrightarrow> i + W \<le> last' \<Longrightarrow> i + W \<le> fst (main_loop_1 f ph W rhs last' i s)"
proof -
  assume "0 < W" "i + W \<le> last'"
  then have g: "0 < W \<and> i + W - 1 < last'" by arith
  have "main_loop_1 f ph W rhs last' i s = main_loop_1 f ph W rhs last' (i + W) (vector_step f ph W rhs i s)"
    using g by (subst main_loop_1.simps) simp
  then show ?thesis
    using main_loop_1_bounds [of "i + W" f ph W rhs last' "vector_step f ph W rhs i s"] by simp
qed

lemma main_loop_1_writes:
  "writes (snd (main_loop_1 f ph W rhs last' i s)) =
     writes s @ map (Pair ph) [i..<fst (main_loop_1 f ph W rhs last' i s)]"
proof (induction f ph W rhs last' i s rule: main_loop_1.induct)
  case (1 f ph W rhs last' i s)
  show ?case
  proof (cases "0 < W \<and> i + W - 1 < last'")
    case True
    let ?r = "main_loop_1 f ph W rhs last' (i + W) (vector_step f ph W rhs i s)"
    have r: "main_loop_1 f ph W rhs last' i s = ?r"
      using True by (subst main_loop_1.simps) simp
    have "i + W \<le> fst ?r" using main_loop_1_bounds by blast
    then have "[i..<fst ?r] = [i..<i + W] @ [i + W..<fst ?r]"
      by (intro upt_split) simp_all
    moreover have "writes (snd ?r) = writes (vector_step f ph W rhs i s) @ map (Pair ph) [i + W..<fst ?r]"
      using "1.IH" [OF True] by simp
    ultimately show ?thesis by (simp add: r)
  next
    case False
    then show ?thesis by (subst (1 2) main_loop_1.simps) auto
  qed
qed

lemma main_loop_1_pool: "pool_tasks (snd (main_loop_1 f ph W rhs last' i s)) = pool_tasks s"
proof (induction f ph W rhs last' i s rule: main_loop_1.induct)
  case (1 f ph W rhs last' i s)
  show ?case
  proof (cases "0 < W \<and> i + W - 1 < last'")
    case True
    with "1.IH" [OF True] show ?thesis
      by (subst main_loop_1.simps) simp
  next
    case False
    then show ?thesis by (subst main_loop_1.simps) auto
  qed
qed

lemma main_loop_1_mem:
  "elementwise rhs m0 \<Longrightarrow> mem s = upd f rhs m0 a i \<Longrightarrow> a \<le> i \<Longrightarrow> last' \<le> length m0 \<Longrightarrow>
   mem (snd (main_loop_1 f ph W rhs last' i s)) = upd f rhs m0 a (fst (main_loop_1 f ph W rhs last' i s))"
proof (induction f ph W rhs last' i s rule: main_loop_1.induct)
  case (1 f ph W rhs last' i s)
  show ?case
  proof (cases "0 < W \<and> i + W - 1 < last'")
    case True
    let ?s' = "vector_step f ph W rhs i s"
    from True have le: "i + W \<le> last'" by arith
    with "1.prems" have "mem ?s' = upd f rhs m0 a (i + W)"
      by (intro vector_step_mem) simp_all
    with "1.prems" have "mem (snd (main_loop_1 f ph W rhs last' (i + W) ?s')) =
        upd f rhs m0 a (fst (main_loop_1 f ph W rhs last' (i + W) ?s'))"
      by (intro "1.IH" [OF True]) simp_all
    with True show ?thesis by (subst (1 2) main_loop_1.simps) simp
  next
    case False
    with "1.prems" show ?thesis by (subst (1 2) main_loop_1.simps) auto
  qed
qed


lemma main_loop_bounds:
  "first \<le> fst (main_loop ph b u f rhs last' first s) \<and>
   (first \<le> last' \<longrightarrow> fst (main_loop ph b u f rhs last' first s) \<le> last')"
  using main_loop_4_bounds [of first f ph "IT_size b" rhs last' s]
    main_loop_1_bounds [of first f ph "IT_size b" rhs last' s]
  by (simp add: main_loop_def)

lemma main_loop_progress:
  assumes "0 < IT_size b" "first + IT_size b \<le> last'"
  shows "first + IT_size b \<le> fst (main_loop ph b u f rhs last' first s)"
proof (cases "u \<and> last' - first > IT_size b * 4")
  case True
  then have "first + IT_size b * 4 \<le> last'" by arith
  from main_loop_4_progress [OF assms(1) this, of f ph rhs s] True show ?thesis
    by (simp add: main_loop_def)
next
  case False
  with main_loop_1_progress [OF assms, of f ph rhs s] show ?thesis
    by (auto simp: main_loop_def)
qed

lemma main_loop_writes:
  "writes (snd (main_loop ph b u f rhs last' first s)) =
     writes s @ map (Pair ph) [first..<fst (main_loop ph b u f rhs last' first s)]"
  by (simp add: main_loop_def main_loop_4_writes main_loop_1_writes)

lemma main_loop_pool: "pool_tasks (snd (main_loop ph b u f rhs last' first s)) = pool_tasks s"
  by (simp add: main_loop_def main_loop_4_pool main_loop_1_pool)

lemma main_loop_mem:
  assumes "elementwise rhs m0" "mem s = upd f rhs m0 a first" "a \<le> first" "last' \<le> length m0"
  shows "mem (snd (main_loop ph b u f rhs last' first s)) =
     upd f rhs m0 a (fst (main_loop ph b u f rhs last' first s))"
  using assms by (simp add: main_loop_def main_loop_4_mem main_loop_1_mem)

subsection \<open>The vectorized functor\<close>

lemma vectorized_functor_unfold:
  "vectorized_functor b u f rhs first last' s =
     (let p = peeled_count b first last'; s1 = snd (peel_loop b f rhs first last' s)
      in if IT_size b \<le> last' - first - p
         then (let r = main_loop (main_phase b first last') b u f rhs last' (first + p) s1
               in remainder_loop f rhs last' (fst r) (snd r))
         else remainder_loop f rhs last' (first + p) s1)"
  by (simp add: vectorized_functor_def Let_def split_def peel_loop_fst main_phase_def
      aligned_main_loop_def unaligned_main_loop_def add.commute)

lemma vectorized_functor_writes:
  assumes "first \<le> last'"
  shows "\<exists>m. first + peeled_count b first last' \<le> m \<and> m \<le> last' \<and>
     (0 < IT_size b \<and> IT_size b \<le> last' - first - peeled_count b first last' \<longrightarrow>
        first + peeled_count b first last' + IT_size b \<le> m) \<and>
     (last' - first - peeled_count b first last' < IT_size b \<longrightarrow> m = first + peeled_count b first last') \<and>
     writes (vectorized_functor b u f rhs first last' s) =
       writes s @ map (Pair Peel) [first..<first + peeled_count b first last'] @
       map (Pair (main_phase b first last')) [first + peeled_count b first last'..<m] @
       map (Pair Remainder) [m..<last']"
proof -
  let ?p = "peeled_count b first last'"
  let ?s1 = "snd (peel_loop b f rhs first last' s)"
  let ?r = "main_loop (main_phase b first last') b u f rhs last' (first + ?p) ?s1"
  have p: "first + ?p \<le> last'" using peeled_count_le [of b first last'] assms by simp
  show ?thesis
  proof (cases "IT_size b \<le> last' - first - ?p")
    case True
    have b1: "first + ?p \<le> fst ?r" "fst ?r \<le> last'"
      using main_loop_bounds [of "first + ?p" "main_phase b first last'" b u f rhs last' ?s1] p by simp_all
    have b2: "first + ?p + IT_size b \<le> fst ?r" if "0 < IT_size b"
      using True p by (intro main_loop_progress that) simp
    have "writes (vectorized_functor b u f rhs first last' s) =
       writes s @ map (Pair Peel) [first..<first + ?p] @
       map (Pair (main_phase b first last')) [first + ?p..<fst ?r] @
       map (Pair Remainder) [fst ?r..<last']"
      using True
      by (simp add: vectorized_functor_unfold Let_def remainder_loop_def scalar_loop_writes
          main_loop_writes peel_loop_writes)
    with b1 b2 True show ?thesis by (intro exI [of _ "fst ?r"]) simp
  next
    case False
    have "writes (vectorized_functor b u f rhs first last' s) =
       writes s @ map (Pair Peel) [first..<first + ?p] @
       map (Pair (main_phase b first last')) [first + ?p..<first + ?p] @
       map (Pair Remainder) [first + ?p..<last']"
      using False
      by (simp add: vectorized_functor_unfold Let_def remainder_loop_def scalar_loop_writes
          peel_loop_writes)
    with p False show ?thesis by (intro exI [of _ "first + ?p"]) simp
  qed
qed

lemma vectorized_functor_pool: "pool_tasks (vectorized_functor b u f rhs first last' s) = pool_tasks s"
  by (simp add: vectorized_functor_unfold Let_def remainder_loop_def scalar_loop_pool
      main_loop_pool peel_loop_pool)

lemma vectorized_functor_mem:
  assumes ew: "elementwise rhs m0" and m: "mem s = upd f rhs m0 a first" and a: "a \<le> first"
    and fl: "first \<le> last'" and l: "last' \<le> length m0"
  shows "mem (vectorized_functor b u f rhs first last' s) = upd f rhs m0 a last'"
proof -
  let ?p = "peeled_count b first last'"
  let ?s1 = "snd (peel_loop b f rhs first last' s)"
  let ?r = "main_loop (main_phase b first last') b u f rhs last' (first + ?p) ?s1"
  have p: "first + ?p \<le> last'" using peeled_count_le [of b first last'] fl by simp
  have m1: "mem ?s1 = upd f rhs m0 a (first + ?p)"
    by (rule peel_loop_mem [OF ew m a fl l])
  have b1: "first + ?p \<le> fst ?r" "fst ?r \<le> last'"
    using main_loop_bounds [of "first + ?p" "main_phase b first last'" b u f rhs last' ?s1] p by simp_all
  have m2: "mem (snd ?r) = upd f rhs m0 a (fst ?r)"
    using a l by (intro main_loop_mem [OF ew m1]) simp_all
  have "mem (remainder_loop f rhs last' (fst ?r) (snd ?r)) = upd f rhs m0 a last'"
    unfolding remainder_loop_def using a b1 l by (intro scalar_loop_mem [OF ew m2]) simp_all
  moreover have "mem (remainder_loop f rhs last' (first + ?p) ?s1) = upd f rhs m0 a last'"
    unfolding remainder_loop_def using a p l by (intro scalar_loop_mem [OF ew m1]) simp_all
  ultimately show ?thesis
    by (simp add: vectorized_functor_unfold Let_def)
qed

section \<open>The phases of a chunk\<close>

lemma issued_append: "writes s' = writes s @ w \<Longrightarrow> issued s s' = w"
  by (simp add: issued_def)

lemma phases_of_writes:
  assumes "a \<le> p" "p \<le> m" "m \<le> c"
  shows "map snd (map (Pair Peel) [a..<p] @ map (Pair ph) [p..<m] @ map (Pair Remainder) [m..<c]) = [a..<c]"
    and "fst ` set (map (Pair Peel) [a..<p] @ map (Pair ph) [p..<m] @ map (Pair Remainder) [m..<c]) =
      (if a < p then {Peel} else {}) \<union> (if p < m then {ph} else {}) \<union> (if m < c then {Remainder} else {})"
proof -
  have "[a..<c] = [a..<p] @ [p..<m] @ [m..<c]"
    using assms upt_split [of a p c] upt_split [of p m c] by simp
  then show "map snd (map (Pair Peel) [a..<p] @ map (Pair ph) [p..<m] @ map (Pair Remainder) [m..<c]) = [a..<c]"
    by (simp add: comp_def)
  have "fst ` Pair x ` {i..<j} = (if i < j then {x} else {})" for x :: phase and i j :: nat
    by (auto simp: image_iff)
  then show "fst ` set (map (Pair Peel) [a..<p] @ map (Pair ph) [p..<m] @ map (Pair Remainder) [m..<c]) =
      (if a < p then {Peel} else {}) \<union> (if p < m then {ph} else {}) \<union> (if m < c then {Remainder} else {})"
    by (simp add: image_Un)
qed

lemma main_phase_cases: "main_phase b first last' = AlignedMain \<or> main_phase b first last' = UnalignedMain"
  by (simp add: main_phase_def)

text \<open>
  C5, as the code has it. For a chunk \<open>[first, last)\<close> and any of the five operators, the
  stores issued by the vectorized functor hit the indices \<open>first, ..., last - 1\<close> once each
  and in this order, so every index of the chunk is written by exactly one phase and no
  other index is written. The phases are peel, aligned main, unaligned main and remainder;
  the aligned and the unaligned main phase never both store; and one of them stores exactly
  when a full lane is left after peeling. On a shorter chunk neither of them runs.
\<close>

theorem vectorized_functor_phases:
  assumes "first \<le> last'" "0 < IT_size b"
  shows "map snd (issued s (vectorized_functor b u f rhs first last' s)) = [first..<last'] \<and>
    fst ` set (issued s (vectorized_functor b u f rhs first last' s))
       \<subseteq> {Peel, AlignedMain, UnalignedMain, Remainder} \<and>
    \<not> (AlignedMain \<in> fst ` set (issued s (vectorized_functor b u f rhs first last' s)) \<and>
       UnalignedMain \<in> fst ` set (issued s (vectorized_functor b u f rhs first last' s))) \<and>
    ((AlignedMain \<in> fst ` set (issued s (vectorized_functor b u f rhs first last' s)) \<or>
      UnalignedMain \<in> fst ` set (issued s (vectorized_functor b u f rhs first last' s)))
       = (IT_size b \<le> last' - first - peeled_count b first last'))"
proof -
  let ?p = "first + peeled_count b first last'"
  let ?ph = "main_phase b first last'"
  let ?w = "issued s (vectorized_functor b u f rhs first last' s)"
  from vectorized_functor_writes [OF assms(1), of b u f rhs s] obtain m where
    m: "?p \<le> m" "m \<le> last'"
    and full: "0 < IT_size b \<and> IT_size b \<le> last' - first - peeled_count b first last' \<longrightarrow> ?p + IT_size b \<le> m"
    and none: "last' - first - peeled_count b first last' < IT_size b \<longrightarrow> m = ?p"
    and w: "writes (vectorized_functor b u f rhs first last' s) =
       writes s @ map (Pair Peel) [first..<?p] @ map (Pair ?ph) [?p..<m] @ map (Pair Remainder) [m..<last']"
    by blast
  have iss: "?w = map (Pair Peel) [first..<?p] @ map (Pair ?ph) [?p..<m] @ map (Pair Remainder) [m..<last']"
    by (rule issued_append [OF w])
  have idx: "map snd ?w = [first..<last']"
    unfolding iss using m by (intro phases_of_writes) simp_all
  have phs: "fst ` set ?w =
      (if first < ?p then {Peel} else {}) \<union> (if ?p < m then {?ph} else {}) \<union> (if m < last' then {Remainder} else {})"
    unfolding iss using m by (intro phases_of_writes) simp_all
  have run: "?p < m \<longleftrightarrow> IT_size b \<le> last' - first - peeled_count b first last'"
    using full none assms(2) by auto
  show ?thesis
  proof (intro conjI)
    show "map snd ?w = [first..<last']" by (rule idx)
    show "fst ` set ?w \<subseteq> {Peel, AlignedMain, UnalignedMain, Remainder}"
      using main_phase_cases [of b first last'] by (auto simp: phs split: if_splits)
    show "\<not> (AlignedMain \<in> fst ` set ?w \<and> UnalignedMain \<in> fst ` set ?w)"
      by (auto simp: phs split: if_splits)
    show "(AlignedMain \<in> fst ` set ?w \<or> UnalignedMain \<in> fst ` set ?w)
       = (IT_size b \<le> last' - first - peeled_count b first last')"
      using main_phase_cases [of b first last'] run by (auto simp: phs split: if_splits)
  qed
qed

text \<open>
  Five elements at an aligned address with four lanes: no peel, one aligned lane, one
  remainder element.
\<close>

theorem vectorized_functor_phases_witness:
  "(0::nat) \<le> 5 \<and> 0 < IT_size sse_float \<and>
   issued (zeros 5) (vectorized_functor sse_float False Assign example_rhs 0 5 (zeros 5)) =
     [(AlignedMain, 0), (AlignedMain, 1), (AlignedMain, 2), (AlignedMain, 3), (Remainder, 4)] \<and>
   map snd (issued (zeros 5) (vectorized_functor sse_float False Assign example_rhs 0 5 (zeros 5))) = [0..<5] \<and>
   \<not> (AlignedMain \<in> fst ` set (issued (zeros 5) (vectorized_functor sse_float False Assign example_rhs 0 5 (zeros 5))) \<and>
      UnalignedMain \<in> fst ` set (issued (zeros 5) (vectorized_functor sse_float False Assign example_rhs 0 5 (zeros 5))))"
proof -
  have h: "(0::nat) \<le> 5" "0 < IT_size sse_float" by (simp_all add: sse_float_def)
  have e: "issued (zeros 5) (vectorized_functor sse_float False Assign example_rhs 0 5 (zeros 5)) =
     [(AlignedMain, 0), (AlignedMain, 1), (AlignedMain, 2), (AlignedMain, 3), (Remainder, 4)]"
    by code_simp
  from vectorized_functor_phases [OF h, of "zeros 5" False Assign example_rhs] h e show ?thesis
    by blast
qed

text \<open>
  The claim that one of the two main phases runs in every invocation fails on a chunk of
  three elements with four lanes: the guard \<^verbatim>\<open>_size - peeled >= IT::size\<close> skips both, and
  the remainder loop writes the whole chunk.
\<close>

theorem vectorized_functor_no_main_phase:
  "issued (zeros 3) (vectorized_functor sse_float False Assign example_rhs 0 3 (zeros 3)) =
     [(Remainder, 0), (Remainder, 1), (Remainder, 2)] \<and>
   AlignedMain \<notin> fst ` set (issued (zeros 3) (vectorized_functor sse_float False Assign example_rhs 0 3 (zeros 3))) \<and>
   UnalignedMain \<notin> fst ` set (issued (zeros 3) (vectorized_functor sse_float False Assign example_rhs 0 3 (zeros 3)))"
  by code_simp

text \<open>
  C10. When the address of the first element of the chunk is off the alignment by a
  number of bytes \<open>u > 0\<close> that is smaller than the element size or no multiple of it,
  the peel loop processes no element, and all stores of the invocation are unaligned main
  stores followed by remainder stores; when the chunk holds a full lane, the unaligned main
  loop stores at least one lane from the very first index.
\<close>

theorem misaligned_start_no_peel:
  assumes "u = (lhs_m b + first * size_1 b) mod IT_alignment b" "0 < u"
    and "u < size_1 b \<or> u mod size_1 b \<noteq> 0" "first \<le> last'" "0 < IT_size b"
  shows "fst (peel_loop b f rhs first last' s) = 0 \<and>
    (\<exists>m. first \<le> m \<and> m \<le> last' \<and>
       issued s (vectorized_functor b unroll f rhs first last' s) =
         map (Pair UnalignedMain) [first..<m] @ map (Pair Remainder) [m..<last'] \<and>
       (IT_size b \<le> last' - first \<longrightarrow> first + IT_size b \<le> m))"
proof -
  have p: "peeled_count b first last' = 0"
    using assms(1,3) by (auto simp: peeled_count_def Let_def)
  have ph: "main_phase b first last' = UnalignedMain"
    using assms(1,2) by (simp add: main_phase_def p)
  from vectorized_functor_writes [OF assms(4), of b unroll f rhs s] obtain m where
    m: "first \<le> m" "m \<le> last'"
    and full: "IT_size b \<le> last' - first \<longrightarrow> first + IT_size b \<le> m"
    and w: "writes (vectorized_functor b unroll f rhs first last' s) =
       writes s @ map (Pair UnalignedMain) [first..<m] @ map (Pair Remainder) [m..<last']"
    using assms(5) by (auto simp: p ph)
  have "issued s (vectorized_functor b unroll f rhs first last' s) =
      map (Pair UnalignedMain) [first..<m] @ map (Pair Remainder) [m..<last']"
    by (rule issued_append [OF w])
  with m full show ?thesis
    by (auto simp: peel_loop_fst p)
qed

text \<open>
  A buffer of 4-byte elements that starts two bytes after a 16-byte boundary.
\<close>

theorem misaligned_start_no_peel_witness:
  "(2::nat) = (lhs_m misaligned_float + 0 * size_1 misaligned_float) mod IT_alignment misaligned_float \<and>
   (0::nat) < 2 \<and> (2 < size_1 misaligned_float \<or> 2 mod size_1 misaligned_float \<noteq> 0) \<and> (0::nat) \<le> 5 \<and>
   0 < IT_size misaligned_float \<and>
   fst (peel_loop misaligned_float Assign example_rhs 0 5 (zeros 5)) = 0 \<and>
   issued (zeros 5) (vectorized_functor misaligned_float False Assign example_rhs 0 5 (zeros 5)) =
     [(UnalignedMain, 0), (UnalignedMain, 1), (UnalignedMain, 2), (UnalignedMain, 3), (Remainder, 4)]"
proof -
  have h: "(2::nat) = (lhs_m misaligned_float + 0 * size_1 misaligned_float) mod IT_alignment misaligned_float"
    "(0::nat) < 2" "2 < size_1 misaligned_float \<or> 2 mod size_1 misaligned_float \<noteq> 0" "(0::nat) \<le> 5"
    "0 < IT_size misaligned_float"
    by (simp_all add: misaligned_float_def)
  have e: "issued (zeros 5) (vectorized_functor misaligned_float False Assign example_rhs 0 5 (zeros 5)) =
     [(UnalignedMain, 0), (UnalignedMain, 1), (UnalignedMain, 2), (UnalignedMain, 3), (Remainder, 4)]"
    by code_simp
  from misaligned_start_no_peel [OF h, of Assign example_rhs "zeros 5" False] h e show ?thesis
    by blast
qed

text \<open>
  The length of the peel phase stays below \<^verbatim>\<open>IT::alignment / sizeof(T)\<close> whenever the
  element size divides the alignment.
\<close>

lemma peeled_count_bound:
  assumes "size_1 b dvd IT_alignment b" "0 < IT_alignment b"
  shows "peeled_count b first last' < IT_alignment b div size_1 b"
proof -
  let ?u = "(lhs_m b + first * size_1 b) mod IT_alignment b"
  from assms have sz: "0 < size_1 b" by (auto elim!: dvdE)
  from assms have pos: "0 < IT_alignment b div size_1 b"
    by (auto elim!: dvdE)
  show ?thesis
  proof (cases "?u \<ge> size_1 b \<and> ?u mod size_1 b = 0")
    case True
    have "?u < IT_alignment b" using assms(2) by simp
    then have "?u div size_1 b < IT_alignment b div size_1 b"
      using assms(1) sz True by (intro div_less_mono) auto
    with True show ?thesis
      by (simp add: peeled_count_def Let_def min_def)
  next
    case False
    with pos show ?thesis by (auto simp: peeled_count_def Let_def)
  qed
qed

text \<open>
  C2, evaluated where it fails. The destination is 16-byte aligned, its elements have four
  bytes and a lane has four elements. With 18 elements on two workers the caller's chunk is
  \<open>[9, 18)\<close>, which starts four bytes after a boundary. \<^verbatim>\<open>peel_loop\<close> takes
  \<^verbatim>\<open>u_bytes / size_1 = 1\<close> element, which leaves the next store at byte 8 of the 16; three
  elements would have reached the boundary. So all lanes of the chunk are stored unaligned,
  although a full lane follows a start that peeling can align.
\<close>

theorem peel_loop_leaves_misaligned:
  "caller_chunk 18 2 = (9, 18) \<and>
   fst (peel_loop sse_float Assign example_rhs 9 18 (zeros 18)) = 1 \<and>
   (lhs_m sse_float + (9 + 1) * size_1 sse_float) mod IT_alignment sse_float = 8 \<and>
   (lhs_m sse_float + (9 + 3) * size_1 sse_float) mod IT_alignment sse_float = 0 \<and>
   issued (zeros 18) (vectorized_functor sse_float False Assign example_rhs 9 18 (zeros 18)) =
     map (Pair Peel) [9..<10] @ map (Pair UnalignedMain) [10..<18]"
  by code_simp

section \<open>The strategies of the evaluator\<close>

lemma upd_all:
  "upd f rhs m0 0 (length m0) = map (\<lambda>j. apply_compound f (m0 ! j) (rhs m0 j)) [0..<length m0]"
  by (simp add: upd_def)

lemma upd_start: "upd f rhs m0 0 0 = m0"
  by (simp add: upd_empty)

lemma standard_evaluate_mem:
  assumes "elementwise rhs (mem result)"
  shows "mem (standard_evaluate f rhs result) = upd f rhs (mem result) 0 (length (mem result))"
  unfolding standard_evaluate_def
  using assms by (intro scalar_loop_mem) (simp_all add: upd_start)

lemma direct_evaluate_mem:
  assumes "elementwise rhs (mem result)"
  shows "mem (direct_evaluate cfg f rhs result) = upd f rhs (mem result) 0 (length (mem result))"
  unfolding direct_evaluate_def
  using assms by (intro scalar_functor_mem) (simp_all add: upd_start)

lemma vectorized_evaluate_mem:
  assumes "elementwise rhs (mem result)"
  shows "mem (vectorized_evaluate cfg b f rhs result) = upd f rhs (mem result) 0 (length (mem result))"
  unfolding vectorized_evaluate_def
  using assms by (intro vectorized_functor_mem) (simp_all add: upd_start)

lemma fast_assign_evaluate_mem:
  "mem (fast_assign_evaluate rhs result) = upd Assign rhs (mem result) 0 (length (mem result))"
  by (simp add: fast_assign_evaluate_def Let_def upd_def)

lemma pool_run_mem:
  assumes body: "\<And>first last' s. mem s = upd f rhs m0 0 first \<Longrightarrow> first \<le> last' \<Longrightarrow> last' \<le> length m0
      \<Longrightarrow> mem (body first last' s) = upd f rhs m0 0 last'"
    and "mem s = m0" "k * batch \<le> length m0"
  shows "mem (foldl (\<lambda>s c. do_task c (body (fst c) (snd c)) s) s
            (map (\<lambda>t. (t * batch, (t + 1) * batch)) [0..<k])) = upd f rhs m0 0 (k * batch)"
  using assms(3)
proof (induction k)
  case 0
  then show ?case using assms(2) by (simp add: upd_start)
next
  case (Suc k)
  let ?s = "foldl (\<lambda>s c. do_task c (body (fst c) (snd c)) s) s (map (\<lambda>t. (t * batch, (t + 1) * batch)) [0..<k])"
  from Suc have m: "mem ?s = upd f rhs m0 0 (k * batch)" by simp
  have "mem (body (k * batch) ((k + 1) * batch) (?s\<lparr>pool_tasks := pool_tasks ?s @ [(k * batch, (k + 1) * batch)]\<rparr>)) =
      upd f rhs m0 0 ((k + 1) * batch)"
    using m Suc.prems by (intro body) simp_all
  then have "mem (do_task (k * batch, (k + 1) * batch) (body (k * batch) ((k + 1) * batch)) ?s) = upd f rhs m0 0 ((k + 1) * batch)"
    by (subst do_task_def)
  then show ?case by simp
qed

lemma pool_run_tasks:
  assumes body: "\<And>first last' s. pool_tasks (body first last' s) = pool_tasks s"
  shows "pool_tasks (foldl (\<lambda>s c. do_task c (body (fst c) (snd c)) s) s cs) = pool_tasks s @ cs"
proof (induction cs rule: rev_induct)
  case Nil
  then show ?case by simp
next
  case (snoc c cs)
  then show ?case by (simp add: do_task_def body)
qed

lemma parallel_evaluate_mem:
  assumes ew: "elementwise rhs (mem result)"
  shows "mem (parallel_evaluate cfg f rhs result) = upd f rhs (mem result) 0 (length (mem result))"
proof (cases "length (mem result) < parallel_threshold cfg \<or> threads cfg < 2")
  case True
  then show ?thesis using direct_evaluate_mem [OF ew] by (simp add: parallel_evaluate_def Let_def)
next
  case False
  let ?n = "length (mem result)"
  let ?b = "?n div threads cfg"
  let ?body = "scalar_functor (unroll_normal_loops cfg) f rhs"
  let ?s1 = "foldl (\<lambda>s c. do_task c (?body (fst c) (snd c)) s) result (pool_chunks ?n (threads cfg))"
  from False have t: "0 < threads cfg" by simp
  have le: "(threads cfg - 1) * ?b \<le> ?n" by (rule caller_chunk_start_le [OF t])
  have "mem ?s1 = upd f rhs (mem result) 0 ((threads cfg - 1) * ?b)"
    unfolding pool_chunks_def Let_def
    using le by (intro pool_run_mem scalar_functor_mem [OF ew]) simp_all
  then have "mem (?body ((threads cfg - 1) * ?b) ?n ?s1) = upd f rhs (mem result) 0 ?n"
    using le by (intro scalar_functor_mem [OF ew]) simp_all
  with False show ?thesis
    by (simp add: parallel_evaluate_def Let_def caller_chunk_def)
qed

lemma parallel_vectorized_evaluate_mem:
  assumes ew: "elementwise rhs (mem result)"
  shows "mem (parallel_vectorized_evaluate cfg b f rhs result) = upd f rhs (mem result) 0 (length (mem result))"
proof (cases "length (mem result) < parallel_threshold cfg \<or> threads cfg < 2")
  case True
  then show ?thesis using vectorized_evaluate_mem [OF ew]
    by (simp add: parallel_vectorized_evaluate_def Let_def)
next
  case False
  let ?n = "length (mem result)"
  let ?b = "?n div threads cfg"
  let ?body = "vectorized_functor b (unroll_vectorized_loops cfg) f rhs"
  let ?s1 = "foldl (\<lambda>s c. do_task c (?body (fst c) (snd c)) s) result (pool_chunks ?n (threads cfg))"
  from False have t: "0 < threads cfg" by simp
  have le: "(threads cfg - 1) * ?b \<le> ?n" by (rule caller_chunk_start_le [OF t])
  have "mem ?s1 = upd f rhs (mem result) 0 ((threads cfg - 1) * ?b)"
    unfolding pool_chunks_def Let_def
    using le by (intro pool_run_mem vectorized_functor_mem [OF ew]) simp_all
  then have "mem (?body ((threads cfg - 1) * ?b) ?n ?s1) = upd f rhs (mem result) 0 ?n"
    using le by (intro vectorized_functor_mem [OF ew]) simp_all
  with False show ?thesis
    by (simp add: parallel_vectorized_evaluate_def Let_def caller_chunk_def)
qed

lemma assign_evaluate_impl_mem:
  assumes "elementwise rhs (mem result)"
  shows "mem (assign_evaluate_impl cfg b st rhs result) = map (rhs (mem result)) [0..<length (mem result)]"
proof -
  have "mem (assign_evaluate_impl cfg b st rhs result) = upd Assign rhs (mem result) 0 (length (mem result))"
    using assms
    by (cases st)
      (simp_all add: standard_evaluate_mem fast_assign_evaluate_mem direct_evaluate_mem
        parallel_evaluate_mem vectorized_evaluate_mem parallel_vectorized_evaluate_mem)
  then show ?thesis by (simp add: upd_all)
qed

lemma compound_evaluate_mem:
  assumes "elementwise rhs (mem result)"
  shows "mem (compound_evaluate cfg b st f rhs result) =
    map (\<lambda>j. apply_compound f (mem result ! j) (rhs (mem result) j)) [0..<length (mem result)]"
proof -
  have "mem (compound_evaluate cfg b st f rhs result) = upd f rhs (mem result) 0 (length (mem result))"
    using assms
    by (cases st)
      (simp_all add: standard_evaluate_mem direct_evaluate_mem
        parallel_evaluate_mem vectorized_evaluate_mem parallel_vectorized_evaluate_mem)
  then show ?thesis by (simp add: upd_all)
qed

lemma elementwise_const: "elementwise (\<lambda>m. e) m0"
  by (simp add: elementwise_def)

lemma elementwise_example_rhs: "elementwise example_rhs m0"
  by (simp add: elementwise_def example_rhs_def)

text \<open>
  C6, as the code has it. For a right-hand side whose element \<open>i\<close> reads the destination
  through element \<open>i\<close> at most (every expression that does not alias the destination is
  one), any two overloads of \<^verbatim>\<open>assign_evaluate_impl\<close> (standard, fast, direct,
  parallel, vectorized, parallel vectorized), under any two settings of the thread count,
  the threshold and the unrolling switches and any two placements of the destination, leave
  the same contents in the destination: element \<open>i\<close> is the flat read \<open>i\<close> of the right-hand
  side. In particular the unrolled loops agree with the plain ones.
\<close>

theorem strategy_independence:
  assumes "elementwise rhs (mem result)"
  shows "mem (assign_evaluate_impl cfg b st rhs result) = mem (assign_evaluate_impl cfg' b' st' rhs result) \<and>
         mem (assign_evaluate_impl cfg b st rhs result) = map (rhs (mem result)) [0..<length (mem result)]"
  using assms by (simp add: assign_evaluate_impl_mem)

text \<open>
  The parallel vectorized overload with both unrolling switches on against the standard loop
  on a misaligned copy of the same destination.
\<close>

theorem strategy_independence_witness:
  "elementwise example_rhs (mem (zeros 5)) \<and>
   mem (assign_evaluate_impl two_threads_config sse_float parallel_vectorized_assign example_rhs (zeros 5)) =
     mem (assign_evaluate_impl serial_config misaligned_float standard_assign example_rhs (zeros 5)) \<and>
   mem (assign_evaluate_impl two_threads_config sse_float parallel_vectorized_assign example_rhs (zeros 5)) =
     [10, 11, 12, 13, 14]"
proof -
  have h: "elementwise example_rhs (mem (zeros 5))" by (rule elementwise_example_rhs)
  have e: "map (example_rhs (mem (zeros 5))) [0..<length (mem (zeros 5))] = [10, 11, 12, 13, 14]"
    by code_simp
  from strategy_independence [OF h, of two_threads_config sse_float parallel_vectorized_assign
      serial_config misaligned_float standard_assign]
  show ?thesis unfolding e using h by blast
qed

text \<open>
  Without that condition the claim fails. A linear expression that aliases the result is
  passed to the overloads as it is, and one that reads the destination one element to the
  left is evaluated differently by them: the standard loop reads what it has just written,
  the lane loop reads four elements before it writes four, and the memory copy reads all
  elements first.
\<close>

theorem strategy_independence_alias_counterexample:
  "mem (assign_evaluate_impl serial_config sse_float standard_assign shifted one_to_eight) =
     [1, 1, 1, 1, 1, 1, 1, 1] \<and>
   mem (assign_evaluate_impl serial_config sse_float vectorized_assign shifted one_to_eight) =
     [1, 1, 2, 3, 3, 5, 6, 7] \<and>
   mem (assign_evaluate_impl serial_config sse_float fast_assign shifted one_to_eight) =
     [1, 1, 2, 3, 4, 5, 6, 7]"
  by code_simp

text \<open>
  C7, as the code has it. For a right-hand side whose element \<open>i\<close> reads the destination
  through element \<open>i\<close> at most (every expression that does not alias the destination is
  one), each of the five overloads of \<^verbatim>\<open>add_evaluate\<close> leaves
  \<open>R'[i] = R[i] + E.read_flat(i)\<close> for all \<open>i < n\<close>, with \<open>R\<close> and \<open>E\<close> taken before the
  call, and keeps the size.
\<close>

theorem add_evaluate_elementwise:
  assumes "elementwise rhs (mem result)"
  shows "length (mem (add_evaluate cfg b st rhs result)) = length (mem result) \<and>
    (\<forall>i < length (mem result).
       mem (add_evaluate cfg b st rhs result) ! i = mem result ! i + rhs (mem result) i)"
  using assms by (simp add: add_evaluate_def compound_evaluate_mem)

theorem add_evaluate_elementwise_witness:
  "elementwise example_rhs (mem square_2x2) \<and>
   mem (add_evaluate two_threads_config sse_float parallel_vectorized_compound example_rhs square_2x2) =
     [11, 13, 15, 17] \<and>
   mem (add_evaluate two_threads_config sse_float parallel_vectorized_compound example_rhs square_2x2) ! 3 =
     mem square_2x2 ! 3 + example_rhs (mem square_2x2) 3"
proof -
  have h: "elementwise example_rhs (mem square_2x2)" by (rule elementwise_example_rhs)
  have e: "mem (add_evaluate two_threads_config sse_float parallel_vectorized_compound example_rhs square_2x2) =
     [11, 13, 15, 17]"
    by code_simp
  have "(3::nat) < length (mem square_2x2)" by (simp add: square_2x2_def)
  with add_evaluate_elementwise [OF h, of two_threads_config sse_float parallel_vectorized_compound] h e
  show ?thesis by blast
qed

text \<open>
  Without that condition the claim fails: \<^verbatim>\<open>add_evaluate\<close> has no aliasing guard, and
  adding the transposed view of a 2 x 2 matrix to the matrix itself reads at index 2 the
  element that the loop has already changed at index 1: the code stores 8 where the values
  before the call give 3 + 2 = 5.
\<close>

theorem add_evaluate_alias_counterexample:
  "mem (add_evaluate serial_config sse_float standard_compound (transpose_flat 2) square_2x2) = [2, 5, 8, 8] \<and>
   mem square_2x2 ! 2 + transpose_flat 2 (mem square_2x2) 2 = 5"
  by code_simp

section \<open>Assignment of an aliasing expression\<close>

lemma transpose_flat_index:
  fixes i j n :: nat
  assumes "i < n" "j < n"
  shows "i * n + j < n * n" and "((i * n + j) mod n) * n + (i * n + j) div n = j * n + i"
proof -
  have "i * n + j < i * n + n" using assms by simp
  also have "\<dots> = Suc i * n" by simp
  also have "\<dots> \<le> n * n" using assms by (intro mult_le_mono1) simp
  finally show "i * n + j < n * n" .
  show "((i * n + j) mod n) * n + (i * n + j) div n = j * n + i"
    using assms by simp
qed

text \<open>
  C1. When the expression is not linear and aliases the result, \<^verbatim>\<open>assign_evaluate\<close>
  evaluates the expression into a temporary made from the result and then evaluates the
  temporary into the result. The temporary then holds the flat reads of the expression on
  the original result, and so does the result at the end, whichever overloads are selected
  for the two steps. For the transposed view of a square matrix the result at \<open>(i, j)\<close> is
  the original element at \<open>(j, i)\<close>.
\<close>

theorem assign_evaluate_materializes:
  assumes "\<not> linear" "aliases"
  shows "assign_evaluate cfg b b_tmp st st_tmp st_copy linear aliases rhs result =
      assign_evaluate_impl cfg b st_copy
        (\<lambda>m i. mem (assign_evaluate_impl cfg b_tmp st_tmp (\<lambda>m. rhs (mem result)) (force_temporary result)) ! i)
        result \<and>
    mem (assign_evaluate_impl cfg b_tmp st_tmp (\<lambda>m. rhs (mem result)) (force_temporary result)) =
      map (rhs (mem result)) [0..<length (mem result)] \<and>
    mem (assign_evaluate cfg b b_tmp st st_tmp st_copy linear aliases rhs result) =
      map (rhs (mem result)) [0..<length (mem result)] \<and>
    (rhs = transpose_flat n \<and> length (mem result) = n * n \<longrightarrow>
       (\<forall>i < n. \<forall>j < n.
          mem (assign_evaluate cfg b b_tmp st st_tmp st_copy linear aliases rhs result) ! (i * n + j) =
            mem result ! (j * n + i)))"
proof -
  let ?tmp = "assign_evaluate_impl cfg b_tmp st_tmp (\<lambda>m. rhs (mem result)) (force_temporary result)"
  let ?R = "assign_evaluate cfg b b_tmp st st_tmp st_copy linear aliases rhs result"
  have unfold: "?R = assign_evaluate_impl cfg b st_copy (\<lambda>m i. mem ?tmp ! i) result"
    using assms by (simp add: assign_evaluate_def Let_def)
  have "mem ?tmp = map (rhs (mem result)) [0..<length (mem (force_temporary result))]"
    by (rule assign_evaluate_impl_mem [OF elementwise_const])
  then have tmp: "mem ?tmp = map (rhs (mem result)) [0..<length (mem result)]"
    by (simp add: force_temporary_def)
  have "mem ?R = map (\<lambda>i. mem ?tmp ! i) [0..<length (mem result)]"
    unfolding unfold by (rule assign_evaluate_impl_mem [OF elementwise_const])
  also have "\<dots> = mem ?tmp"
    using tmp by (intro nth_equalityI) simp_all
  finally have res: "mem ?R = map (rhs (mem result)) [0..<length (mem result)]"
    using tmp by simp
  have "mem ?R ! (i * n + j) = mem result ! (j * n + i)"
    if "rhs = transpose_flat n" "length (mem result) = n * n" "i < n" "j < n" for i j
    using that transpose_flat_index [of i n j] res by (simp add: transpose_flat_def)
  with unfold tmp res show ?thesis by blast
qed

text \<open>
  \<^verbatim>\<open>R = transpose(R)\<close> for the 2 x 2 matrix \<open>1 2 / 3 4\<close>.
\<close>

theorem assign_evaluate_materializes_witness:
  "\<not> False \<and> True \<and>
   mem (assign_evaluate serial_config sse_float misaligned_float standard_assign vectorized_assign fast_assign
         False True (transpose_flat 2) square_2x2) = [1, 3, 2, 4] \<and>
   mem (assign_evaluate serial_config sse_float misaligned_float standard_assign vectorized_assign fast_assign
         False True (transpose_flat 2) square_2x2) ! (0 * 2 + 1) = mem square_2x2 ! (1 * 2 + 0)"
proof -
  have e: "map (transpose_flat 2 (mem square_2x2)) [0..<length (mem square_2x2)] = [1, 3, 2, 4]"
    by code_simp
  have l: "length (mem square_2x2) = 2 * 2" by (simp add: square_2x2_def)
  have h: "\<not> False" "True" by simp_all
  note t = assign_evaluate_materializes [OF h, of serial_config sse_float misaligned_float standard_assign
      vectorized_assign fast_assign "transpose_flat 2" square_2x2 2]
  from t have m: "mem (assign_evaluate serial_config sse_float misaligned_float standard_assign vectorized_assign fast_assign
         False True (transpose_flat 2) square_2x2) = map (transpose_flat 2 (mem square_2x2)) [0..<length (mem square_2x2)]"
    by blast
  from t l have q: "\<forall>i < 2. \<forall>j < 2. mem (assign_evaluate serial_config sse_float misaligned_float standard_assign vectorized_assign fast_assign
         False True (transpose_flat 2) square_2x2) ! (i * 2 + j) = mem square_2x2 ! (j * 2 + i)"
    by blast
  have "(0::nat) < 2" "(1::nat) < 2" by simp_all
  from q [rule_format, OF this] m [unfolded e] show ?thesis by simp
qed

section \<open>When the pool is used\<close>

lemma pool_chunks_nonempty: "2 \<le> thr \<Longrightarrow> pool_chunks n thr \<noteq> []"
  by (simp add: pool_chunks_def Let_def)

lemma direct_evaluate_pool: "pool_tasks (direct_evaluate cfg f rhs result) = pool_tasks result"
  by (simp add: direct_evaluate_def scalar_functor_pool)

lemma vectorized_evaluate_pool: "pool_tasks (vectorized_evaluate cfg b f rhs result) = pool_tasks result"
  by (simp add: vectorized_evaluate_def vectorized_functor_pool)

lemma parallel_evaluate_pool:
  "pool_tasks (parallel_evaluate cfg f rhs result) =
     (if length (mem result) < parallel_threshold cfg \<or> threads cfg < 2 then pool_tasks result
      else pool_tasks result @ pool_chunks (length (mem result)) (threads cfg))"
  by (simp add: parallel_evaluate_def Let_def direct_evaluate_pool scalar_functor_pool
      pool_run_tasks [of "scalar_functor (unroll_normal_loops cfg) f rhs", OF scalar_functor_pool])

lemma parallel_vectorized_evaluate_pool:
  "pool_tasks (parallel_vectorized_evaluate cfg b f rhs result) =
     (if length (mem result) < parallel_threshold cfg \<or> threads cfg < 2 then pool_tasks result
      else pool_tasks result @ pool_chunks (length (mem result)) (threads cfg))"
  by (simp add: parallel_vectorized_evaluate_def Let_def vectorized_evaluate_pool vectorized_functor_pool
      pool_run_tasks [of "vectorized_functor b (unroll_vectorized_loops cfg) f rhs", OF vectorized_functor_pool])

text \<open>
  C4, as the code has it. The parallel overloads hand chunks to the pool exactly when the
  element count is at least the threshold and at least two workers are configured; the
  chunks are then those of the partition. In every other case the parallel overload is the
  direct evaluation and the parallel vectorized overload is the vectorized evaluation, state
  for state.
\<close>

theorem parallel_dispatch:
  "((pool_tasks (parallel_evaluate cfg f rhs result) \<noteq> pool_tasks result) =
      (parallel_threshold cfg \<le> length (mem result) \<and> 2 \<le> threads cfg)) \<and>
   ((pool_tasks (parallel_vectorized_evaluate cfg b f rhs result) \<noteq> pool_tasks result) =
      (parallel_threshold cfg \<le> length (mem result) \<and> 2 \<le> threads cfg)) \<and>
   (parallel_threshold cfg \<le> length (mem result) \<and> 2 \<le> threads cfg \<longrightarrow>
      pool_tasks (parallel_evaluate cfg f rhs result) =
        pool_tasks result @ pool_chunks (length (mem result)) (threads cfg) \<and>
      pool_tasks (parallel_vectorized_evaluate cfg b f rhs result) =
        pool_tasks result @ pool_chunks (length (mem result)) (threads cfg)) \<and>
   (\<not> (parallel_threshold cfg \<le> length (mem result) \<and> 2 \<le> threads cfg) \<longrightarrow>
      parallel_evaluate cfg f rhs result = direct_evaluate cfg f rhs result \<and>
      parallel_vectorized_evaluate cfg b f rhs result = vectorized_evaluate cfg b f rhs result)"
proof -
  have ne: "pool_chunks (length (mem result)) (threads cfg) \<noteq> []" if "2 \<le> threads cfg"
    using that by (rule pool_chunks_nonempty)
  have fallback: "parallel_evaluate cfg f rhs result = direct_evaluate cfg f rhs result \<and>
      parallel_vectorized_evaluate cfg b f rhs result = vectorized_evaluate cfg b f rhs result"
    if "\<not> (parallel_threshold cfg \<le> length (mem result) \<and> 2 \<le> threads cfg)"
    using that by (auto simp: parallel_evaluate_def parallel_vectorized_evaluate_def Let_def not_less not_le)
  show ?thesis
    using ne fallback
    by (auto simp: parallel_evaluate_pool parallel_vectorized_evaluate_pool not_less not_le)
qed

text \<open>
  With a threshold of four and two workers, three elements fall back to the direct
  evaluation and five elements send the chunk \<open>[0, 2)\<close> to the pool.
\<close>

theorem parallel_dispatch_witness:
  "\<not> (parallel_threshold two_threads_config \<le> length (mem (zeros 3)) \<and> 2 \<le> threads two_threads_config) \<and>
   parallel_evaluate two_threads_config Assign example_rhs (zeros 3) =
     direct_evaluate two_threads_config Assign example_rhs (zeros 3) \<and>
   parallel_threshold two_threads_config \<le> length (mem (zeros 5)) \<and> 2 \<le> threads two_threads_config \<and>
   pool_tasks (parallel_evaluate two_threads_config Assign example_rhs (zeros 5)) = [(0, 2)]"
proof -
  have a: "\<not> (parallel_threshold two_threads_config \<le> length (mem (zeros 3)) \<and> 2 \<le> threads two_threads_config)"
    by (simp add: two_threads_config_def zeros_def)
  have b: "parallel_threshold two_threads_config \<le> length (mem (zeros 5)) \<and> 2 \<le> threads two_threads_config"
    by (simp add: two_threads_config_def zeros_def)
  have e: "pool_tasks (zeros 5) @ pool_chunks (length (mem (zeros 5))) (threads two_threads_config) = [(0, 2)]"
    by code_simp
  from parallel_dispatch [of two_threads_config Assign example_rhs "zeros 3" sse_float] a
  have 1: "parallel_evaluate two_threads_config Assign example_rhs (zeros 3) =
     direct_evaluate two_threads_config Assign example_rhs (zeros 3)" by blast
  from parallel_dispatch [of two_threads_config Assign example_rhs "zeros 5" sse_float] b
  have "pool_tasks (parallel_evaluate two_threads_config Assign example_rhs (zeros 5)) =
      pool_tasks (zeros 5) @ pool_chunks (length (mem (zeros 5))) (threads two_threads_config)" by blast
  with a b 1 show ?thesis unfolding e by blast
qed

text \<open>
  At exactly the threshold the count does not exceed it, and still the pool is used: the
  guard of the code is \<^verbatim>\<open>n < parallel_threshold\<close>.
\<close>

theorem parallel_at_threshold_counterexample:
  "pool_tasks (assign_evaluate_impl two_threads_config sse_float parallel_assign example_rhs (zeros 4)) = [(0, 2)] \<and>
   pool_tasks (assign_evaluate_impl two_threads_config sse_float parallel_vectorized_assign example_rhs (zeros 4)) = [(0, 2)] \<and>
   pool_tasks (zeros 4) = [] \<and>
   \<not> (parallel_threshold two_threads_config < length (mem (zeros 4)))"
  by code_simp

section \<open>The order in which the chunks run\<close>

lemma pointwise_elementwise: "pointwise rhs (length m0) \<Longrightarrow> elementwise rhs m0"
  unfolding pointwise_def elementwise_def by blast

lemma upd_on_length [simp]: "length (upd_on f rhs m0 S) = length m0"
  by (simp add: upd_on_def)

lemma upd_on_nth:
  "j < length m0 \<Longrightarrow>
   upd_on f rhs m0 S ! j = (if j \<in> S then apply_compound f (m0 ! j) (rhs m0 j) else m0 ! j)"
  by (simp add: upd_on_def)

lemma upd_on_interval: "upd_on f rhs m0 {a..<b} = upd f rhs m0 a b"
  by (simp add: upd_on_def upd_def)

lemma scalar_functor_chunk_body: "chunk_body f rhs (scalar_functor u f rhs)"
  unfolding chunk_body_def
  by (intro allI impI scalar_functor_mem) (simp_all add: upd_empty)

lemma vectorized_functor_chunk_body: "chunk_body f rhs (vectorized_functor b u f rhs)"
  unfolding chunk_body_def
  by (intro allI impI vectorized_functor_mem) (simp_all add: upd_empty)

lemma chunk_body_on:
  assumes body: "chunk_body f rhs body" and pw: "pointwise rhs (length m0)"
    and m: "mem s = upd_on f rhs m0 S" and dis: "S \<inter> {first..<last'} = {}"
    and le: "first \<le> last'" "last' \<le> length m0"
  shows "mem (body first last' s) = upd_on f rhs m0 (S \<union> {first..<last'})"
proof -
  have len: "length (mem s) = length m0" by (simp add: m)
  then have "elementwise rhs (mem s)" using pw by (intro pointwise_elementwise) simp
  with body le len have r: "mem (body first last' s) = upd f rhs (mem s) first last'"
    unfolding chunk_body_def by simp
  have "upd f rhs (mem s) first last' ! j = upd_on f rhs m0 (S \<union> {first..<last'}) ! j" if j: "j < length m0" for j
  proof (cases "first \<le> j \<and> j < last'")
    case True
    with dis have "j \<notin> S" by auto
    with j have same: "mem s ! j = m0 ! j" by (simp add: m upd_on_nth)
    from pw len j same have "rhs (mem s) j = rhs m0 j"
      unfolding pointwise_def by blast
    with True j len same show ?thesis by (simp add: upd_nth upd_on_nth)
  next
    case False
    with j len show ?thesis by (auto simp: upd_nth upd_on_nth m)
  qed
  then have "upd f rhs (mem s) first last' = upd_on f rhs m0 (S \<union> {first..<last'})"
    using len by (intro nth_equalityI) simp_all
  with r show ?thesis by simp
qed

lemma run_schedule_mem:
  assumes body: "chunk_body f rhs body" and pw: "pointwise rhs (length m0)"
  shows "mem s = upd_on f rhs m0 S \<Longrightarrow> \<forall>c \<in> set cs. fst c \<le> snd c \<and> snd c \<le> length m0 \<Longrightarrow>
    \<forall>c \<in> set cs. S \<inter> chunk_set c = {} \<Longrightarrow>
    \<forall>i. length (filter (\<lambda>c. i \<in> chunk_set c) cs) \<le> 1 \<Longrightarrow>
    mem (run_schedule body cs s) = upd_on f rhs m0 (S \<union> (\<Union>c \<in> set cs. chunk_set c))"
proof (induction cs arbitrary: s S)
  case Nil
  then show ?case by (simp add: run_schedule_def)
next
  case (Cons c cs)
  let ?s = "body (fst c) (snd c) s"
  have m: "mem ?s = upd_on f rhs m0 (S \<union> chunk_set c)"
    unfolding chunk_set_def using Cons.prems
    by (intro chunk_body_on [OF body pw]) (simp_all add: chunk_set_def)
  have sep: "chunk_set c \<inter> chunk_set d = {}" if d: "d \<in> set cs" for d
  proof (rule ccontr)
    assume "chunk_set c \<inter> chunk_set d \<noteq> {}"
    then obtain i where i: "i \<in> chunk_set c" "i \<in> chunk_set d" by blast
    with d have "filter (\<lambda>c. i \<in> chunk_set c) cs \<noteq> []" by (auto simp: filter_empty_conv)
    then have "Suc 0 \<le> length (filter (\<lambda>c. i \<in> chunk_set c) cs)"
      by (cases "filter (\<lambda>c. i \<in> chunk_set c) cs") simp_all
    with i(1) have "Suc (Suc 0) \<le> length (filter (\<lambda>c. i \<in> chunk_set c) (c # cs))" by simp
    moreover from Cons.prems(4) have "length (filter (\<lambda>c. i \<in> chunk_set c) (c # cs)) \<le> 1" by blast
    ultimately show False by simp
  qed
  have cov: "\<forall>i. length (filter (\<lambda>c. i \<in> chunk_set c) cs) \<le> 1"
  proof
    fix i
    have "length (filter (\<lambda>c. i \<in> chunk_set c) cs) \<le> length (filter (\<lambda>c. i \<in> chunk_set c) (c # cs))"
      by simp
    also have "\<dots> \<le> 1" using Cons.prems(4) by blast
    finally show "length (filter (\<lambda>c. i \<in> chunk_set c) cs) \<le> 1" .
  qed
  have "mem (run_schedule body cs ?s) = upd_on f rhs m0 ((S \<union> chunk_set c) \<union> (\<Union>c \<in> set cs. chunk_set c))"
    using Cons.prems sep cov by (intro Cons.IH [OF m]) auto
  then show ?case by (simp add: run_schedule_def Un_assoc)
qed

lemma disjoint_cover:
  "(\<And>i j. i < j \<Longrightarrow> j < length cs \<Longrightarrow> chunk_set (cs ! i) \<inter> chunk_set (cs ! j) = {}) \<Longrightarrow>
   length (filter (\<lambda>c. x \<in> chunk_set c) cs) \<le> 1"
proof (induction cs)
  case Nil
  then show ?case by simp
next
  case (Cons c cs)
  have tail: "length (filter (\<lambda>c. x \<in> chunk_set c) cs) \<le> 1"
  proof (rule Cons.IH)
    fix i j assume "i < j" "j < length cs"
    then show "chunk_set (cs ! i) \<inter> chunk_set (cs ! j) = {}"
      using Cons.prems [of "Suc i" "Suc j"] by simp
  qed
  show ?case
  proof (cases "x \<in> chunk_set c")
    case True
    have "x \<notin> chunk_set d" if "d \<in> set cs" for d
    proof -
      from that obtain k where "k < length cs" "cs ! k = d" by (auto simp: in_set_conv_nth)
      with Cons.prems [of 0 "Suc k"] True show ?thesis by auto
    qed
    then have "filter (\<lambda>c. x \<in> chunk_set c) cs = []" by (auto simp: filter_empty_conv)
    with True show ?thesis by simp
  next
    case False
    with tail show ?thesis by simp
  qed
qed

lemma chunks_bounds:
  assumes "0 < thr" "c \<in> set (chunks n thr)"
  shows "fst c \<le> snd c \<and> snd c \<le> n"
proof -
  let ?b = "n div thr"
  from assms(2) consider t where "t < thr - 1" "c = (t * ?b, (t + 1) * ?b)" | "c = ((thr - 1) * ?b, n)"
    by (auto simp: chunks_def pool_chunks_def caller_chunk_def Let_def)
  then show ?thesis
  proof cases
    case 1
    then have "(t + 1) * ?b \<le> (thr - 1) * ?b" by (intro mult_le_mono1) simp
    also have "\<dots> \<le> n" by (rule caller_chunk_start_le [OF assms(1)])
    finally show ?thesis using 1 by simp
  next
    case 2
    then show ?thesis using caller_chunk_start_le [OF assms(1), of n] by simp
  qed
qed

lemma schedule_irrelevant:
  assumes "0 < thr" "pointwise rhs (length (mem result))" "chunk_body f rhs body"
    and "mset cs = mset (chunks (length (mem result)) thr)"
  shows "mem (run_schedule body cs result) = upd f rhs (mem result) 0 (length (mem result))"
proof -
  let ?n = "length (mem result)"
  from assms(4) have set: "set cs = set (chunks ?n thr)" by (rule mset_eq_setD)
  have cover: "length (filter (\<lambda>c. i \<in> chunk_set c) cs) \<le> 1" for i
  proof -
    have "length (filter (\<lambda>c. i \<in> chunk_set c) cs) = size (filter_mset (\<lambda>c. i \<in> chunk_set c) (mset cs))"
      by (simp flip: mset_filter)
    also have "\<dots> = length (filter (\<lambda>c. i \<in> chunk_set c) (chunks ?n thr))"
      by (simp add: assms(4) flip: mset_filter)
    also have "\<dots> \<le> 1"
      using chunks_disjoint [of _ _ thr ?n] by (intro disjoint_cover) (simp add: chunks_length)
    finally show ?thesis .
  qed
  have "mem (run_schedule body cs result) = upd_on f rhs (mem result) ({} \<union> (\<Union>c \<in> set cs. chunk_set c))"
    using cover chunks_bounds [OF assms(1), of _ ?n] set
    by (intro run_schedule_mem [OF assms(3,2)]) (auto simp: upd_on_def intro: nth_equalityI)
  also have "(\<Union>c \<in> set cs. chunk_set c) = {0..<?n}"
    unfolding set by (rule chunks_union [OF assms(1)])
  finally show ?thesis by (simp add: upd_on_interval)
qed

text \<open>
  The pool may run its chunks in any order and interleave them with the caller's chunk.
  Whatever order the chunks of the partition are run in, the destination ends with the
  contents that the evaluation in order of submission leaves.
\<close>

lemma parallel_evaluate_any_order:
  assumes "0 < threads cfg" "pointwise rhs (length (mem result))"
    and "mset cs = mset (chunks (length (mem result)) (threads cfg))"
  shows "mem (run_schedule (scalar_functor (unroll_normal_loops cfg) f rhs) cs result) =
      mem (parallel_evaluate cfg f rhs result)"
    and "mem (run_schedule (vectorized_functor b (unroll_vectorized_loops cfg) f rhs) cs result) =
      mem (parallel_vectorized_evaluate cfg b f rhs result)"
proof -
  have ew: "elementwise rhs (mem result)" using assms(2) by (rule pointwise_elementwise)
  show "mem (run_schedule (scalar_functor (unroll_normal_loops cfg) f rhs) cs result) =
      mem (parallel_evaluate cfg f rhs result)"
    using schedule_irrelevant [OF assms(1,2) scalar_functor_chunk_body assms(3)]
    by (simp add: parallel_evaluate_mem [OF ew])
  show "mem (run_schedule (vectorized_functor b (unroll_vectorized_loops cfg) f rhs) cs result) =
      mem (parallel_vectorized_evaluate cfg b f rhs result)"
    using schedule_irrelevant [OF assms(1,2) vectorized_functor_chunk_body assms(3)]
    by (simp add: parallel_vectorized_evaluate_mem [OF ew])
qed

section \<open>The chunks of the parallel strategies\<close>














end
